theory Spec2Isabelle
  imports Complex_Main "HOL-Library.Sublist" "HOL-Library.Char_ord" "HOL-Library.List_Lexorder"
begin

section \<open>Python strings\<close>

text \<open>
  A Python \<open>str\<close> is a sequence of code points. The strings of the pipeline are modelled
  on the code points below 256, one \<^typ>\<open>char\<close> each; the classification functions below
  are Python's own on that range. Strings are compared as Python compares them:
  lexicographically, by code point. The regular expressions of \<open>subjectivity_hint\<close> are
  modelled on texts of arbitrary code points.
\<close>

definition py_isspace :: "char \<Rightarrow> bool" where
  \<comment> \<open>\<open>str.isspace\<close> on one character: what \<open>str.strip()\<close> removes.\<close>
  "py_isspace c =
     (let n = (of_char c :: nat)
      in (9 \<le> n \<and> n \<le> 13) \<or> (28 \<le> n \<and> n \<le> 32) \<or> n = 133 \<or> n = 160)"

definition py_lower_char :: "char \<Rightarrow> char" where
  \<comment> \<open>\<open>str.lower\<close> on one character: A-Z and the capital letters U+00C0..U+00DE
      (the multiplication sign U+00D7 is not a letter).\<close>
  "py_lower_char c =
     (let n = (of_char c :: nat)
      in if (65 \<le> n \<and> n \<le> 90) \<or> (192 \<le> n \<and> n \<le> 222 \<and> n \<noteq> 215)
         then char_of (n + 32) else c)"

definition py_lower :: "string \<Rightarrow> string" where
  "py_lower s = map py_lower_char s"

definition py_strip :: "string \<Rightarrow> string" where
  \<comment> \<open>\<open>s.strip()\<close>\<close>
  "py_strip s = rev (dropWhile py_isspace (rev (dropWhile py_isspace s)))"

definition py_slice_to :: "'a list \<Rightarrow> int \<Rightarrow> 'a list" where
  \<comment> \<open>\<open>xs[:n]\<close>; a negative \<open>n\<close> counts from the end.\<close>
  "py_slice_to xs n =
     (if 0 \<le> n then take (nat n) xs else take (length xs - nat (- n)) xs)"

definition py_or :: "string option \<Rightarrow> string \<Rightarrow> string" where
  \<comment> \<open>\<open>x or d\<close> for an optional string \<open>x\<close>: \<open>None\<close> and \<open>""\<close> are falsy.\<close>
  "py_or x d = (case x of None \<Rightarrow> d | Some s \<Rightarrow> if s = [] then d else s)"

fun py_join :: "string \<Rightarrow> string list \<Rightarrow> string" where
  \<comment> \<open>\<open>sep.join(parts)\<close>\<close>
  "py_join sep [] = []"
| "py_join sep [p] = p"
| "py_join sep (p # q # ps) = p @ sep @ py_join sep (q # ps)"

fun py_contains :: "string \<Rightarrow> string \<Rightarrow> bool" where
  \<comment> \<open>\<open>needle in hay\<close>\<close>
  "py_contains needle [] = (needle = [])"
| "py_contains needle (c # cs) = (prefix needle (c # cs) \<or> py_contains needle cs)"

fun char_at :: "'a list \<Rightarrow> nat \<Rightarrow> 'a option" where
  \<comment> \<open>the character at an index, \<open>None\<close> outside the text\<close>
  "char_at [] i = None"
| "char_at (c # cs) 0 = Some c"
| "char_at (c # cs) (Suc i) = char_at cs i"

section \<open>Article records\<close>

record bias =
  article_type :: string
  sentiment :: real
  subjectivity_hint :: string

record article =
  ident :: string
  url :: "string option"
  title :: string
  published_at :: string
  section_name :: string
  summary_auto :: string
  bias_heuristic :: bias

section \<open>Library functions\<close>

text \<open>
  The code calls libraries that are not part of the repository: \<open>hashlib\<close>, \<open>dateutil\<close>,
  \<open>datetime\<close>, \<open>html\<close>, NLTK's sentence tokenizer, VADER, and the network behind
  \<open>fetch_content\<close>. They are parameters of the model, collected in one record; every
  theorem holds for whatever these functions compute.
\<close>

record datetime =
  wall_clock :: int \<comment> \<open>the date and time fields, as microseconds\<close>
  tzinfo :: "int option" \<comment> \<open>the UTC offset in microseconds, \<open>None\<close> for a naive value\<close>

record env =
  sha1_hexdigest :: "string \<Rightarrow> string"
    \<comment> \<open>\<open>hashlib.sha1(s.encode("utf-8")).hexdigest()\<close>\<close>
  date_parser_parse :: "string \<Rightarrow> datetime option"
    \<comment> \<open>\<open>dateutil.parser.parse\<close>, \<open>None\<close> when it raises\<close>
  astimezone_isoformat :: "string \<Rightarrow> datetime \<Rightarrow> string option"
    \<comment> \<open>\<open>dt.astimezone(tz.gettz(name)).isoformat()\<close>, \<open>None\<close> when it raises\<close>
  fromisoformat :: "string \<Rightarrow> int"
    \<comment> \<open>the instant of \<open>datetime.fromisoformat(s)\<close>, in microseconds since the epoch\<close>
  html_unescape :: "string \<Rightarrow> string"
  sent_tokenize :: "string \<Rightarrow> string list"
  polarity_compound :: "string \<Rightarrow> real"
    \<comment> \<open>\<open>_sentiment_analyzer.polarity_scores(text).get("compound", 0.0)\<close>\<close>
  round3 :: "real \<Rightarrow> real"
    \<comment> \<open>\<open>round(x, 3)\<close>\<close>
  fetch_content :: "string \<Rightarrow> string option"
    \<comment> \<open>the readable HTML of a page, \<open>None\<close> on any failure\<close>
  unicode_tolower :: "nat \<Rightarrow> nat"
    \<comment> \<open>the lowercase of a code point, as the \<open>re\<close> module takes it from the Unicode
        database (\<open>_sre.unicode_tolower\<close>)\<close>
  unicode_isword :: "nat \<Rightarrow> bool"
    \<comment> \<open>what \<open>\w\<close> matches in a \<open>str\<close> pattern: the alphanumeric code points of the
        Unicode database and the underscore\<close>

section \<open>utils.py\<close>

definition stable_id :: "env \<Rightarrow> string \<Rightarrow> string" where
  "stable_id E u = sha1_hexdigest E u"

definition parse_date :: "env \<Rightarrow> string \<Rightarrow> string \<Rightarrow> string option" where
  "parse_date E date_str timezone =
     (case date_parser_parse E date_str of
        None \<Rightarrow> None
      | Some dt \<Rightarrow>
          (let dt' = (if tzinfo dt = None then dt\<lparr>tzinfo := Some 0\<rparr> else dt)
           in astimezone_isoformat E timezone dt'))"

subsection \<open>summarize\<close>

definition tag_length :: "string \<Rightarrow> nat option" where
  \<comment> \<open>the length of the match of \<open><[^>]+>\<close> at the start of the text, if there is one\<close>
  "tag_length text =
     (case text of
        [] \<Rightarrow> None
      | c # cs \<Rightarrow>
          (let body = takeWhile (\<lambda>x. x \<noteq> CHR ''>'') cs
           in if c = CHR ''<'' \<and> body \<noteq> [] \<and> length body < length cs
              then Some (length body + 2) else None))"

fun sub_tags :: "nat \<Rightarrow> string \<Rightarrow> string" where
  \<comment> \<open>\<open>re.sub(r"<[^>]+>", " ", text)\<close>, scanning from the left; the first argument
      counts the characters of the current match still to be consumed\<close>
  "sub_tags k [] = []"
| "sub_tags (Suc k) (c # cs) = sub_tags k cs"
| "sub_tags 0 (c # cs) =
     (case tag_length (c # cs) of
        Some n \<Rightarrow> CHR '' '' # sub_tags (n - 1) cs
      | None \<Rightarrow> c # sub_tags 0 cs)"

fun accumulate :: "int \<Rightarrow> string list \<Rightarrow> int \<Rightarrow> string list \<Rightarrow> string list" where
  \<comment> \<open>the loop over the sentences: \<open>summary_parts\<close> and \<open>total_chars\<close> are its state\<close>
  "accumulate max_chars summary_parts total_chars [] = summary_parts"
| "accumulate max_chars summary_parts total_chars (sentence # sentences) =
     (let sentence' = py_strip sentence
      in if sentence' = [] then accumulate max_chars summary_parts total_chars sentences
         else if total_chars + int (length sentence') + 1 > max_chars then summary_parts
         else accumulate max_chars (summary_parts @ [sentence'])
                (total_chars + int (length sentence') + 1) sentences)"

definition summarize :: "env \<Rightarrow> string option \<Rightarrow> int \<Rightarrow> string" where
  "summarize E text max_chars =
     (case text of
        None \<Rightarrow> []
      | Some t \<Rightarrow>
          if t = [] then []
          else
            (let cleaned = html_unescape E (sub_tags 0 t);
                 sentences = sent_tokenize E cleaned;
                 summary_parts = accumulate max_chars [] 0 sentences;
                 summary = (if summary_parts \<noteq> [] then py_join '' '' summary_parts
                            else py_strip (py_slice_to cleaned max_chars))
             in py_strip (py_slice_to summary max_chars)))"

subsection \<open>Bias heuristics\<close>

definition detect_article_type :: "string \<Rightarrow> string" where
  "detect_article_type u =
     (if py_contains ''/opinion/'' (py_lower u) then ''Opinion'' else ''News'')"

definition sentiment_score :: "env \<Rightarrow> string \<Rightarrow> string \<Rightarrow> real" where
  "sentiment_score E ttl summary = polarity_compound E (py_strip (ttl @ '' '' @ summary))"

text \<open>
  The three patterns of \<open>subjectivity_hint\<close> have the shape \<open>\b(w1|w2|...)\b\<close> and are
  compiled with \<open>re.IGNORECASE\<close>. \<open>findall\<close> scans from the left and returns the matches
  that do not overlap; only their number is used. Here a text is any Python \<open>str\<close>: a
  list of code points, with no bound on them.

  Under \<open>re.IGNORECASE\<close> a letter \<open>p\<close> of a pattern is compiled to its lowercase \<open>lo\<close> and
  to the other case forms the module lists for \<open>lo\<close>; a character of the text matches
  when its lowercase is one of these. The patterns hold ASCII letters only, whose
  lowercase and whose listed forms are written out.
\<close>

type_synonym ustring = "nat list"

definition codepoints :: "string \<Rightarrow> ustring" where
  "codepoints s = map of_char s"

definition ascii_letter :: "nat \<Rightarrow> bool" where
  "ascii_letter p = ((65 \<le> p \<and> p \<le> 90) \<or> (97 \<le> p \<and> p \<le> 122))"

definition ascii_tolower :: "nat \<Rightarrow> nat" where
  "ascii_tolower p = (if 65 \<le> p \<and> p \<le> 90 then p + 32 else p)"

definition ignorecase_fixes :: "nat \<Rightarrow> nat list" where
  \<comment> \<open>the extra case forms of \<open>i\<close>, \<open>k\<close> and \<open>s\<close>: dotless i (U+0131), the Kelvin sign
      (U+212A) and long s (U+017F)\<close>
  "ignorecase_fixes lo =
     (if lo = 105 then [305] else if lo = 107 then [8490] else if lo = 115 then [383] else [])"

definition literal_char :: "env \<Rightarrow> nat \<Rightarrow> nat \<Rightarrow> bool" where
  \<comment> \<open>the character \<open>c\<close> of the text matches the character \<open>p\<close> of a pattern\<close>
  "literal_char E p c =
     (if ascii_letter p
      then unicode_tolower E c \<in> set (ascii_tolower p # ignorecase_fixes (ascii_tolower p))
      else c = p)"

definition word_boundary :: "env \<Rightarrow> nat option \<Rightarrow> nat option \<Rightarrow> bool" where
  \<comment> \<open>\<open>\b\<close> between two neighbouring characters; outside the text counts as a
      non-word character\<close>
  "word_boundary E a b =
     ((case a of None \<Rightarrow> False | Some c \<Rightarrow> unicode_isword E c)
      \<noteq> (case b of None \<Rightarrow> False | Some c \<Rightarrow> unicode_isword E c))"

fun match_literal :: "env \<Rightarrow> ustring \<Rightarrow> ustring \<Rightarrow> bool" where
  \<comment> \<open>a literal of the pattern matches at the start of the text, ignoring case\<close>
  "match_literal E [] text = True"
| "match_literal E (p # ps) [] = False"
| "match_literal E (p # ps) (c # cs) = (literal_char E p c \<and> match_literal E ps cs)"

fun match_alternatives ::
  "env \<Rightarrow> ustring list \<Rightarrow> nat option \<Rightarrow> ustring \<Rightarrow> nat option" where
  \<comment> \<open>\<open>(w1|w2|...)\b\<close>: the first alternative after which the boundary holds; the
      result is the length of the match\<close>
  "match_alternatives E [] prev text = None"
| "match_alternatives E (w # ws) prev text =
     (if match_literal E w text
         \<and> word_boundary E (if w = [] then prev else char_at text (length w - 1))
              (char_at text (length w))
      then Some (length w)
      else match_alternatives E ws prev text)"

definition match_here :: "env \<Rightarrow> ustring list \<Rightarrow> nat option \<Rightarrow> ustring \<Rightarrow> nat option" where
  \<comment> \<open>\<open>\b(w1|w2|...)\b\<close> at the start of the text, \<open>prev\<close> being the character before\<close>
  "match_here E ws prev text =
     (if word_boundary E prev (char_at text 0) then match_alternatives E ws prev text
      else None)"

fun findall_count :: "env \<Rightarrow> ustring list \<Rightarrow> nat \<Rightarrow> nat option \<Rightarrow> ustring \<Rightarrow> nat" where
  \<comment> \<open>\<open>len(pattern.findall(text))\<close>; the third argument counts the characters of the
      current match still to be consumed\<close>
  "findall_count E ws k prev [] = 0"
| "findall_count E ws (Suc k) prev (c # cs) = findall_count E ws k (Some c) cs"
| "findall_count E ws 0 prev (c # cs) =
     (case match_here E ws prev (c # cs) of
        Some n \<Rightarrow> 1 + findall_count E ws (n - 1) (Some c) cs
      | None \<Rightarrow> findall_count E ws 0 (Some c) cs)"

definition first_person :: "ustring list" where
  "first_person =
     map codepoints [''I'', ''we'', ''me'', ''us'', ''my'', ''our'', ''mine'', ''ours'']"

definition modal_verbs :: "ustring list" where
  "modal_verbs =
     map codepoints [''should'', ''would'', ''could'', ''must'', ''might'', ''may'', ''ought'']"

definition evaluatives :: "ustring list" where
  "evaluatives =
     map codepoints [''important'', ''significant'', ''remarkable'', ''terrible'',
                     ''wonderful'', ''excellent'', ''poor'', ''good'', ''bad'']"

definition subjectivity_score :: "env \<Rightarrow> ustring \<Rightarrow> nat" where
  "subjectivity_score E text =
     findall_count E first_person 0 None text
     + findall_count E modal_verbs 0 None text
     + findall_count E evaluatives 0 None text"

definition subjectivity :: "env \<Rightarrow> ustring \<Rightarrow> string" where
  \<comment> \<open>the function \<open>subjectivity_hint\<close> of utils.py\<close>
  "subjectivity E text =
     (let score = subjectivity_score E text
      in if score = 0 then ''low'' else if score \<le> 2 then ''medium'' else ''high'')"

definition compute_bias :: "env \<Rightarrow> string \<Rightarrow> string \<Rightarrow> string \<Rightarrow> bias" where
  "compute_bias E u ttl summary =
     \<lparr>article_type = detect_article_type u,
      sentiment = sentiment_score E ttl summary,
      subjectivity_hint = subjectivity E (codepoints (ttl @ '' '' @ summary))\<rparr>"

definition to_dict :: "env \<Rightarrow> bias \<Rightarrow> bias" where
  "to_dict E b = b\<lparr>sentiment := round3 E (sentiment b)\<rparr>"

section \<open>scrape_section\<close>

type_synonym entry = "string \<rightharpoonup> string"

record section_cfg =
  feed_url :: string
  display_name :: string
  max_items :: int

record config =
  timezone :: "string option"
  window_hours :: "int option"
  allow_extract :: bool
  sections :: "section_cfg list"

datatype error = FetchFailure

definition tz_name :: "config \<Rightarrow> string" where
  \<comment> \<open>\<open>config.get("timezone", "UTC")\<close>\<close>
  "tz_name cfg = (case timezone cfg of None \<Rightarrow> ''UTC'' | Some z \<Rightarrow> z)"

definition window_start :: "config \<Rightarrow> int \<Rightarrow> int" where
  \<comment> \<open>\<open>now - timedelta(hours=config.get("window_hours", 24))\<close>, in microseconds\<close>
  "window_start cfg now =
     now - 3600000000 * (case window_hours cfg of None \<Rightarrow> 24 | Some h \<Rightarrow> h)"

definition date_keys :: "string list" where
  "date_keys = [''published'', ''updated'', ''pubDate'', ''date'']"

fun first_present :: "string list \<Rightarrow> entry \<Rightarrow> string option" where
  \<comment> \<open>the value of the first key that is in the entry\<close>
  "first_present [] e = None"
| "first_present (k # ks) e = (case e k of Some v \<Rightarrow> Some v | None \<Rightarrow> first_present ks e)"

definition truthy :: "string option \<Rightarrow> bool" where
  "truthy x = (case x of None \<Rightarrow> False | Some s \<Rightarrow> s \<noteq> [])"

definition make_item :: "env \<Rightarrow> section_cfg \<Rightarrow> bool \<Rightarrow> entry \<Rightarrow> string \<Rightarrow> article" where
  \<comment> \<open>the second half of the loop body: the record built for an entry whose date,
      \<open>published_at\<close>, passed the checks\<close>
  "make_item E sec allow e pub =
     (let url_entry = e ''link'';
          ttl = py_strip (html_unescape E (case e ''title'' of None \<Rightarrow> [] | Some t \<Rightarrow> t));
          summary_raw = py_or (e ''summary'') (py_or (e ''description'') []);
          summary0 = summarize E (Some summary_raw) 500;
          summary1 =
            (if summary0 = [] \<and> allow \<and> truthy url_entry
             then (let extracted_html = fetch_content E (the url_entry)
                   in if truthy extracted_html then summarize E extracted_html 500
                      else summary0)
             else summary0);
          b = compute_bias E (py_or url_entry []) ttl summary1
      in \<lparr>ident = stable_id E (py_or url_entry ttl),
          url = url_entry,
          title = ttl,
          published_at = pub,
          section_name = display_name sec,
          summary_auto = summary1,
          bias_heuristic = to_dict E b\<rparr>)"

definition process_entry ::
  "env \<Rightarrow> config \<Rightarrow> section_cfg \<Rightarrow> int \<Rightarrow> bool \<Rightarrow> entry \<Rightarrow> article option" where
  \<comment> \<open>the body of the loop over the entries; \<open>None\<close> is \<open>continue\<close>\<close>
  "process_entry E cfg sec now allow e =
     (let pub_str = first_present date_keys e
      in if \<not> truthy pub_str then None
         else
           (let pub = parse_date E (the pub_str) (tz_name cfg)
            in if \<not> truthy pub then None
               else if fromisoformat E (the pub) < window_start cfg now then None
               else Some (make_item E sec allow e (the pub))))"

fun collect_items ::
  "env \<Rightarrow> config \<Rightarrow> section_cfg \<Rightarrow> int \<Rightarrow> bool \<Rightarrow> entry list \<Rightarrow> article list" where
  "collect_items E cfg sec now allow [] = []"
| "collect_items E cfg sec now allow (e # es) =
     (case process_entry E cfg sec now allow e of
        None \<Rightarrow> collect_items E cfg sec now allow es
      | Some item \<Rightarrow> item # collect_items E cfg sec now allow es)"

definition sort_newest_first :: "article list \<Rightarrow> article list" where
  \<comment> \<open>\<open>items.sort(key=lambda x: x["published_at"], reverse=True)\<close>: the list is reversed,
      sorted by a stable ascending sort and reversed again\<close>
  "sort_newest_first items = rev (sort_key published_at (rev items))"

definition scrape_section ::
  "env \<Rightarrow> config \<Rightarrow> section_cfg \<Rightarrow> int \<Rightarrow> bool \<Rightarrow> error + entry list \<Rightarrow> error + article list" where
  \<comment> \<open>the last argument is what fetching and parsing the feed gave: the entries, or the
      exception of \<open>fetch_feed_bytes\<close>\<close>
  "scrape_section E cfg sec now allow feed =
     (case feed of
        Inl err \<Rightarrow> Inl err
      | Inr entries \<Rightarrow>
          Inr (py_slice_to (sort_newest_first (collect_items E cfg sec now allow entries))
                 (max_items sec)))"

section \<open>deduplicate\<close>

type_synonym dedup_key = "string option \<times> string"

definition item_key :: "article \<Rightarrow> dedup_key" where
  \<comment> \<open>\<open>(item.get("url"), (item.get("title") or "").lower())\<close>; the title of an item is
      always a string, on which \<open>or ""\<close> changes nothing.\<close>
  "item_key item = (url item, py_lower (title item))"

fun deduplicate_loop :: "dedup_key set \<Rightarrow> article list \<Rightarrow> article list" where
  "deduplicate_loop seen [] = []"
| "deduplicate_loop seen (item # items) =
     (let key = item_key item
      in if key \<in> seen then deduplicate_loop seen items
         else item # deduplicate_loop (insert key seen) items)"

definition deduplicate :: "article list \<Rightarrow> article list" where
  "deduplicate items = deduplicate_loop {} items"

section \<open>main\<close>

record snapshot =
  source :: string
  generated_at :: int \<comment> \<open>the instant \<open>now\<close>\<close>
  snapshot_timezone :: string
  snapshot_items :: "article list"

fun scrape_all ::
  "env \<Rightarrow> config \<Rightarrow> int \<Rightarrow> (section_cfg \<times> (error + entry list)) list \<Rightarrow> article list" where
  \<comment> \<open>the loop over the sections: an exception in one section is logged and the section
      adds nothing to \<open>all_items\<close>\<close>
  "scrape_all E cfg now [] = []"
| "scrape_all E cfg now ((sec, feed) # rest) =
     (case scrape_section E cfg sec now (allow_extract cfg) feed of
        Inl err \<Rightarrow> scrape_all E cfg now rest
      | Inr items \<Rightarrow> items @ scrape_all E cfg now rest)"

definition run :: "env \<Rightarrow> config \<Rightarrow> int \<Rightarrow> (error + entry list) list \<Rightarrow> snapshot" where
  \<comment> \<open>\<open>main\<close> after the configuration is loaded; the last argument gives, for each
      configured section in order, what its feed returned\<close>
  "run E cfg now feeds =
     (let all_items = scrape_all E cfg now (zip (sections cfg) feeds);
          deduped = deduplicate (sort_newest_first all_items)
      in \<lparr>source = ''CBC News'',
          generated_at = now,
          snapshot_timezone = tz_name cfg,
          snapshot_items = deduped\<rparr>)"

section \<open>Notions used in the statements\<close>

definition cleaned_text :: "env \<Rightarrow> string \<Rightarrow> string" where
  \<comment> \<open>the text of \<open>summarize\<close> after the tags are replaced and the entities decoded\<close>
  "cleaned_text E t = html_unescape E (sub_tags 0 t)"

definition nonempty_sentences :: "string list \<Rightarrow> string list" where
  \<comment> \<open>the sentences the loop of \<open>summarize\<close> looks at: stripped, the empty ones skipped\<close>
  "nonempty_sentences sents = filter (\<lambda>s. s \<noteq> []) (map py_strip sents)"

definition candidate_sentences :: "env \<Rightarrow> string \<Rightarrow> string list" where
  "candidate_sentences E t = nonempty_sentences (sent_tokenize E (cleaned_text E t))"

definition charge :: "string list \<Rightarrow> int" where
  \<comment> \<open>what the loop adds to \<open>total_chars\<close> for these parts: each length plus one\<close>
  "charge parts = (\<Sum>s\<leftarrow>parts. int (length s) + 1)"

text \<open>
  The summary as the specification words it: whole sentences are added, separated by one
  space, until adding the next one would make the summary longer than the limit; when
  none fits, the cleaned text is cut to the limit.
\<close>

fun spec_accumulate :: "int \<Rightarrow> string list \<Rightarrow> string list \<Rightarrow> string list" where
  "spec_accumulate m parts [] = parts"
| "spec_accumulate m parts (s # ss) =
     (if int (length (py_join '' '' (parts @ [s]))) > m then parts
      else spec_accumulate m (parts @ [s]) ss)"

definition spec_summarize :: "env \<Rightarrow> string \<Rightarrow> int \<Rightarrow> string" where
  "spec_summarize E t m =
     (let parts = spec_accumulate m [] (candidate_sentences E t)
      in if parts \<noteq> [] then py_join '' '' parts
         else py_strip (py_slice_to (cleaned_text E t) m))"

text \<open>
  The article type as the specification words it: the path of the URL (what follows the
  scheme and the host, up to the query or the fragment) has a segment \<open>opinion\<close>, in any
  case.
\<close>

definition url_path :: "string \<Rightarrow> string" where
  "url_path u =
     (let after = dropWhile (\<lambda>c. c \<noteq> CHR '':'') u;
          rest = (if prefix ''://'' after
                  then dropWhile (\<lambda>c. c \<notin> {CHR ''/'', CHR ''?'', CHR ''#''}) (drop 3 after)
                  else u)
      in takeWhile (\<lambda>c. c \<notin> {CHR ''?'', CHR ''#''}) rest)"

fun split_on :: "char \<Rightarrow> string \<Rightarrow> string \<Rightarrow> string list" where
  "split_on sep acc [] = [acc]"
| "split_on sep acc (c # cs) =
     (if c = sep then acc # split_on sep [] cs else split_on sep (acc @ [c]) cs)"

definition has_opinion_segment :: "string \<Rightarrow> bool" where
  "has_opinion_segment u = (''opinion'' \<in> set (map py_lower (split_on CHR ''/'' [] (url_path u))))"

text \<open>
  Whole-word occurrences of marker words: one of the words stands at a position of the
  text, letter by letter under a given relation between a letter of the word and a
  character of the text, with no word character right before it and none right after
  it. The count is the number of positions at which such an occurrence starts.
\<close>

definition occurs_at ::
  "(nat \<Rightarrow> nat \<Rightarrow> bool) \<Rightarrow> (nat \<Rightarrow> bool) \<Rightarrow> ustring list \<Rightarrow> ustring \<Rightarrow> nat \<Rightarrow> bool" where
  "occurs_at same isword ws text i =
     (\<exists>w\<in>set ws. i + length w \<le> length text
        \<and> list_all2 same w (take (length w) (drop i text))
        \<and> (i = 0 \<or> \<not> isword (text ! (i - 1)))
        \<and> (i + length w = length text \<or> \<not> isword (text ! (i + length w))))"

definition whole_word_count ::
  "(nat \<Rightarrow> nat \<Rightarrow> bool) \<Rightarrow> (nat \<Rightarrow> bool) \<Rightarrow> ustring list \<Rightarrow> ustring \<Rightarrow> nat" where
  "whole_word_count same isword ws text =
     length (filter (occurs_at same isword ws text) [0..<length text])"

definition same_lowercase :: "env \<Rightarrow> nat \<Rightarrow> nat \<Rightarrow> bool" where
  \<comment> \<open>case-insensitive as the specification has it: the two characters have the same
      lowercase\<close>
  "same_lowercase E p c = (unicode_tolower E c = unicode_tolower E p)"

definition marker_count :: "(nat \<Rightarrow> nat \<Rightarrow> bool) \<Rightarrow> env \<Rightarrow> ustring \<Rightarrow> nat" where
  \<comment> \<open>the total over the three classes of marker words\<close>
  "marker_count same E text =
     whole_word_count same (unicode_isword E) first_person text
     + whole_word_count same (unicode_isword E) modal_verbs text
     + whole_word_count same (unicode_isword E) evaluatives text"

definition plain_word :: "ustring \<Rightarrow> bool" where
  "plain_word w = (w \<noteq> [] \<and> (\<forall>p\<in>set w. ascii_letter p))"

definition letters_are_words :: "env \<Rightarrow> bool" where
  \<comment> \<open>a fact of the Unicode database: whatever matches an ASCII letter under
      \<open>re.IGNORECASE\<close> is a letter, hence a word character\<close>
  "letters_are_words E =
     (\<forall>p c. ascii_letter p \<and> literal_char E p c \<longrightarrow> unicode_isword E c)"

definition isword_opt :: "env \<Rightarrow> nat option \<Rightarrow> bool" where
  "isword_opt E a = (case a of None \<Rightarrow> False | Some c \<Rightarrow> unicode_isword E c)"

text \<open>The same notion on a suffix of the text and the character before it.\<close>

definition occ_here :: "env \<Rightarrow> ustring list \<Rightarrow> nat option \<Rightarrow> ustring \<Rightarrow> bool" where
  "occ_here E ws prev rest =
     (\<exists>w\<in>set ws. match_literal E w rest \<and> \<not> isword_opt E prev
                 \<and> \<not> isword_opt E (char_at rest (length w)))"

fun occ_count :: "env \<Rightarrow> ustring list \<Rightarrow> nat option \<Rightarrow> ustring \<Rightarrow> nat" where
  "occ_count E ws prev [] = 0"
| "occ_count E ws prev (c # cs) =
     (if occ_here E ws prev (c # cs) then 1 else 0) + occ_count E ws (Some c) cs"




section \<open>Sample data\<close>

text \<open>Concrete records and inputs on which the theorems below are instantiated.\<close>

definition sample_item :: "string option \<Rightarrow> string \<Rightarrow> string \<Rightarrow> article" where
  "sample_item u t p =
     \<lparr>ident = [], url = u, title = t, published_at = p, section_name = ''Politics'',
      summary_auto = [],
      bias_heuristic = \<lparr>article_type = ''News'', sentiment = 0, subjectivity_hint = ''low''\<rparr>\<rparr>"

definition sample_newer :: article where
  "sample_newer = sample_item (Some ''https://cbc.ca/news/budget-1'') ''Budget 2025''
                    ''2025-11-05T09:00:00-05:00''"

definition sample_older :: article where
  "sample_older = sample_item (Some ''https://cbc.ca/news/budget-1'') ''BUDGET 2025''
                    ''2025-11-05T07:30:00-05:00''"

text \<open>
  A sample instance of the library functions, for evaluating the code on concrete inputs:
  a sentence splitter that ends a sentence at \<open>.\<close>, \<open>!\<close> or \<open>?\<close> followed by white space or
  the end of the text, as the tokenizer does on the plain sentences used below; a date
  table for four RFC 822 dates rendered in America/Toronto; texts without \<open>&\<close>, which
  \<open>html.unescape\<close> leaves as they are; the Unicode tables on the code points the
  examples use; and placeholders for the digest, the sentiment model and the network.
\<close>

fun split_sentences :: "string \<Rightarrow> string \<Rightarrow> string list" where
  "split_sentences acc [] = (if acc = [] then [] else [acc])"
| "split_sentences acc (c # cs) =
     (if acc = [] \<and> py_isspace c then split_sentences [] cs
      else if c \<in> {CHR ''.'', CHR ''!'', CHR ''?''} \<and> (cs = [] \<or> py_isspace (hd cs))
      then (acc @ [c]) # split_sentences [] cs
      else split_sentences (acc @ [c]) cs)"

definition sample_dates :: "(string \<times> int) list" where
  "sample_dates =
     [(''Wed, 05 Nov 2025 16:00:00 GMT'', 1762358400000000),
      (''Wed, 05 Nov 2025 09:00:00 GMT'', 1762333200000000),
      (''Tue, 04 Nov 2025 15:00:00 GMT'', 1762268400000000),
      (''Mon, 03 Nov 2025 09:00:00 GMT'', 1762160400000000)]"

definition sample_iso :: "(int \<times> string) list" where
  "sample_iso =
     [(1762358400000000, ''2025-11-05T11:00:00-05:00''),
      (1762333200000000, ''2025-11-05T04:00:00-05:00''),
      (1762268400000000, ''2025-11-04T10:00:00-05:00''),
      (1762160400000000, ''2025-11-03T04:00:00-05:00'')]"

definition sample_tolower :: "nat \<Rightarrow> nat" where
  \<comment> \<open>the lowercase table on the code points below 256, on capital I with dot
      (U+0130) and on the Kelvin sign (U+212A); elsewhere the identity\<close>
  "sample_tolower c =
     (if (65 \<le> c \<and> c \<le> 90) \<or> (192 \<le> c \<and> c \<le> 222 \<and> c \<noteq> 215) then c + 32
      else if c = 304 then 105 else if c = 8490 then 107 else c)"

definition sample_isword :: "nat \<Rightarrow> bool" where
  \<comment> \<open>the word characters below 256, and U+0130, U+0131, U+017F, U+212A\<close>
  "sample_isword n =
     ((48 \<le> n \<and> n \<le> 57) \<or> (65 \<le> n \<and> n \<le> 90) \<or> n = 95 \<or> (97 \<le> n \<and> n \<le> 122)
      \<or> n = 170 \<or> n = 178 \<or> n = 179 \<or> n = 181 \<or> n = 185 \<or> n = 186
      \<or> (188 \<le> n \<and> n \<le> 190) \<or> (192 \<le> n \<and> n \<le> 214) \<or> (216 \<le> n \<and> n \<le> 246)
      \<or> (248 \<le> n \<and> n \<le> 255)
      \<or> n = 304 \<or> n = 305 \<or> n = 383 \<or> n = 8490)"

definition sample_env :: env where
  "sample_env =
     \<lparr>sha1_hexdigest = (\<lambda>s. ''sha1:'' @ s),
      date_parser_parse =
        (\<lambda>s. map_option (\<lambda>t. \<lparr>wall_clock = t, tzinfo = Some 0\<rparr>) (map_of sample_dates s)),
      astimezone_isoformat =
        (\<lambda>z dt. map_of sample_iso (wall_clock dt - (case tzinfo dt of None \<Rightarrow> 0 | Some off \<Rightarrow> off))),
      fromisoformat =
        (\<lambda>s. case map_of (map (\<lambda>(t, i). (i, t)) sample_iso) s of None \<Rightarrow> 0 | Some t \<Rightarrow> t),
      html_unescape = (\<lambda>s. s),
      sent_tokenize = split_sentences [],
      polarity_compound = (\<lambda>s. 0),
      round3 = (\<lambda>x. x),
      fetch_content = (\<lambda>u. None),
      unicode_tolower = sample_tolower,
      unicode_isword = sample_isword\<rparr>"

definition sample_budget_new :: article where
  "sample_budget_new = sample_item (Some ''https://cbc.ca/news/budget-1'') ''Budget 2025''
                         ''2025-11-05T04:00:00-05:00''"

definition sample_storm :: article where
  "sample_storm = sample_item (Some ''https://cbc.ca/news/storm-7'') ''Storm warning''
                    ''2025-11-04T10:00:00-05:00''"

definition sample_budget_old :: article where
  "sample_budget_old = sample_item (Some ''https://cbc.ca/news/budget-1'') ''BUDGET 2025''
                         ''2025-11-03T04:00:00-05:00''"

definition sample_now :: int where
  "sample_now = 1762354800000000"

definition sample_cfg :: config where
  "sample_cfg =
     \<lparr>timezone = Some ''America/Toronto'', window_hours = Some 24, allow_extract = False,
      sections = [\<lparr>feed_url = ''https://www.cbc.ca/webfeed/rss/rss-politics'',
                   display_name = ''Politics'', max_items = 10\<rparr>]\<rparr>"

definition sample_sec :: section_cfg where
  "sample_sec = hd (sections sample_cfg)"

definition sample_entry :: "string \<Rightarrow> string option \<Rightarrow> entry" where
  "sample_entry ttl pub =
     (\<lambda>k. if k = ''title'' then Some ttl
          else if k = ''link'' then Some ''https://cbc.ca/news/politics/budget-1''
          else if k = ''summary'' then Some []
          else if k = ''published'' then pub
          else None)"

definition entry_fresh :: entry where
  "entry_fresh = sample_entry ''Budget 2025'' (Some ''Wed, 05 Nov 2025 09:00:00 GMT'')"

definition entry_edge :: entry where
  "entry_edge = sample_entry ''Edge'' (Some ''Tue, 04 Nov 2025 15:00:00 GMT'')"



definition entry_undated :: entry where
  "entry_undated = sample_entry ''Undated'' None"

definition entry_unparsed :: entry where
  "entry_unparsed = sample_entry ''Unparsed'' (Some ''soon'')"

section \<open>Properties of deduplicate\<close>

lemma loop_subseq: "subseq (deduplicate_loop seen xs) xs"
  by (induction xs arbitrary: seen) (auto simp: Let_def)

lemma loop_keys_fresh: "y \<in> set (deduplicate_loop seen xs) \<Longrightarrow> item_key y \<notin> seen"
  by (induction xs arbitrary: seen) (auto simp: Let_def split: if_splits)

lemma loop_keys_distinct: "distinct (map item_key (deduplicate_loop seen xs))"
  by (induction xs arbitrary: seen) (auto simp: Let_def dest: loop_keys_fresh)

lemma loop_fixed:
  "distinct (map item_key ys) \<Longrightarrow> item_key ` set ys \<inter> seen = {}
   \<Longrightarrow> deduplicate_loop seen ys = ys"
  by (induction ys arbitrary: seen) (auto simp: Let_def)

lemma loop_member:
  "y \<in> set (deduplicate_loop seen xs) \<longleftrightarrow>
     item_key y \<notin> seen \<and> find (\<lambda>z. item_key z = item_key y) xs = Some y"
  by (induction xs arbitrary: seen) (auto simp: Let_def)

lemma deduplicate_member_index:
  "y \<in> set (deduplicate xs) \<longleftrightarrow>
     (\<exists>i<length xs. xs ! i = y \<and> (\<forall>j<i. item_key (xs ! j) \<noteq> item_key y))"
  unfolding deduplicate_def loop_member find_Some_iff by auto


text \<open>
  C10. \<open>deduplicate\<close> is an order-preserving, idempotent filter: its output is a
  subsequence of its input, no two items of the output have the same key
  \<open>(url, lowercased title)\<close>, applying it to its own output changes nothing, and an item
  is kept exactly when it is the first item of the input with its key.
\<close>

theorem deduplicate_filter:
  "subseq (deduplicate xs) xs \<and>
   distinct (map item_key (deduplicate xs)) \<and>
   deduplicate (deduplicate xs) = deduplicate xs \<and>
   (\<forall>y. y \<in> set (deduplicate xs)
        \<longleftrightarrow> find (\<lambda>z. item_key z = item_key y) xs = Some y)"
  unfolding deduplicate_def
  using loop_subseq loop_keys_distinct loop_member[of _ "{}"] loop_fixed[of _ "{}"]
  by (simp add: loop_keys_distinct)

theorem deduplicate_filter_witness:
  "deduplicate [sample_newer, sample_older, sample_newer] = [sample_newer]
   \<and> subseq [sample_newer] [sample_newer, sample_older, sample_newer]"
proof -
  have e: "deduplicate [sample_newer, sample_older, sample_newer] = [sample_newer]"
    by code_simp
  have "subseq (deduplicate [sample_newer, sample_older, sample_newer])
          [sample_newer, sample_older, sample_newer]"
    using deduplicate_filter[of "[sample_newer, sample_older, sample_newer]"] by blast
  then show ?thesis using e by simp
qed

section \<open>Sorting newest first, then deduplicating\<close>

lemma sort_newest_first_sorted:
  "sorted_wrt (\<lambda>a b. published_at b \<le> published_at a) (sort_newest_first items)"
proof -
  have "sorted (map published_at (sort_key published_at (rev items)))" by simp
  then have "sorted_wrt (\<lambda>a b. published_at a \<le> published_at b) (sort_key published_at (rev items))"
    by (simp add: sorted_wrt_map)
  then show ?thesis
    unfolding sort_newest_first_def by (simp add: sorted_wrt_rev)
qed

lemma sort_newest_first_set: "set (sort_newest_first items) = set items"
  by (simp add: sort_newest_first_def)

lemma sort_newest_first_stable:
  "filter (\<lambda>x. published_at x = p) (sort_newest_first items) = filter (\<lambda>x. published_at x = p) items"
proof -
  have "filter (\<lambda>x. published_at x = p) (sort_newest_first items)
        = rev (filter (\<lambda>x. published_at x = p) (sort_key published_at (rev items)))"
    by (simp add: sort_newest_first_def rev_filter)
  also have "\<dots> = rev (filter (\<lambda>x. published_at x = p) (rev items))"
    by (simp add: sort_key_stable)
  finally show ?thesis by (simp add: rev_filter)
qed

lemma run_items:
  "snapshot_items (run E cfg now feeds)
   = deduplicate (sort_newest_first (scrape_all E cfg now (zip (sections cfg) feeds)))"
  by (simp add: run_def)

lemma item_key_eq:
  "item_key a = item_key b \<longleftrightarrow> url a = url b \<and> py_lower (title a) = py_lower (title b)"
  by (simp add: item_key_def)

lemma later_duplicate_dropped:
  fixes f :: "article \<Rightarrow> 'b::linorder"
  assumes srt: "sorted_wrt (\<lambda>a b. f b \<le> f a) xs"
    and ij: "i < j" and jl: "j < length xs"
    and keq: "item_key (xs ! i) = item_key (xs ! j)"
    and pne: "f (xs ! i) \<noteq> f (xs ! j)"
  shows "xs ! j \<notin> set (deduplicate xs)
         \<and> (\<exists>k\<le>i. xs ! k \<in> set (deduplicate xs)
                \<and> item_key (xs ! k) = item_key (xs ! j) \<and> f (xs ! j) < f (xs ! k))"
proof -
  have desc: "\<And>a b. a < b \<Longrightarrow> b < length xs \<Longrightarrow> f (xs ! b) \<le> f (xs ! a)"
    using srt by (simp add: sorted_wrt_iff_nth_less)
  have lt: "f (xs ! j) < f (xs ! i)"
    using desc[OF ij jl] pne by simp
  define k where "k = (LEAST m. item_key (xs ! m) = item_key (xs ! j))"
  have kkey: "item_key (xs ! k) = item_key (xs ! j)"
    unfolding k_def by (rule LeastI[of _ i]) (rule keq)
  have kle: "k \<le> i" unfolding k_def by (rule Least_le) (rule keq)
  have kmin: "\<And>m. m < k \<Longrightarrow> item_key (xs ! m) \<noteq> item_key (xs ! j)"
    unfolding k_def by (rule not_less_Least)
  have kl: "k < length xs" using kle ij jl by simp
  have kin: "xs ! k \<in> set (deduplicate xs)"
    unfolding deduplicate_member_index using kl kmin kkey by auto
  have pk: "f (xs ! i) \<le> f (xs ! k)"
  proof (cases "k = i")
    case True then show ?thesis by simp
  next
    case False
    then have "k < i" using kle by simp
    then show ?thesis using desc[of k i] ij jl by simp
  qed
  have ltk: "f (xs ! j) < f (xs ! k)" using lt pk by simp
  have "xs ! j \<notin> set (deduplicate xs)"
  proof
    assume "xs ! j \<in> set (deduplicate xs)"
    then obtain m where m: "m < length xs" "xs ! m = xs ! j"
      "\<forall>n<m. item_key (xs ! n) \<noteq> item_key (xs ! j)"
      unfolding deduplicate_member_index by auto
    have "\<not> k < m" using m(3) kkey by auto
    then have "m \<le> k" by simp
    have "f (xs ! k) \<le> f (xs ! m)"
    proof (cases "m = k")
      case True then show ?thesis by simp
    next
      case False
      then have "m < k" using \<open>m \<le> k\<close> by simp
      then show ?thesis using desc[of m k] kl by simp
    qed
    then show False using ltk m(2) by simp
  qed
  then show ?thesis using kle kin kkey ltk by blast
qed

lemma sort_newest_first_by_instant:
  assumes agree: "\<forall>a\<in>set items. \<forall>b\<in>set items.
             published_at b \<le> published_at a
             \<longrightarrow> fromisoformat E (published_at b) \<le> fromisoformat E (published_at a)"
  shows "sorted_wrt (\<lambda>a b. fromisoformat E (published_at b) \<le> fromisoformat E (published_at a))
           (sort_newest_first items)"
proof -
  have s: "sorted_wrt (\<lambda>a b. published_at b \<le> published_at a) (sort_newest_first items)"
    by (rule sort_newest_first_sorted)
  show ?thesis
  proof (rule sorted_wrt_mono_rel[OF _ s])
    fix x y
    assume "x \<in> set (sort_newest_first items)" "y \<in> set (sort_newest_first items)"
      "published_at y \<le> published_at x"
    then show "fromisoformat E (published_at y) \<le> fromisoformat E (published_at x)"
      using agree by (simp add: sort_newest_first_set)
  qed
qed

text \<open>
  C3. Deduplication keeps the newest. On a merged list sorted by timestamp descending
  (the timestamp of a record being the instant of its \<open>published_at\<close>), \<open>deduplicate\<close>
  keeps exactly the items before which no item has the same URL and the same lowercased
  title; and of two items with the same URL and the same lowercased title and different
  timestamps, the one later in the list is dropped, while an item with that URL and
  lowercased title, at or before the earlier one and strictly newer than the dropped
  one, is kept. \<open>main\<close> sorts on the \<open>published_at\<close> strings: by
  \<open>sort_newest_first_by_instant\<close> its list is sorted by timestamp whenever the order of
  the strings agrees with the order of the instants, as it does for one UTC offset.
\<close>

theorem dedup_keeps_newest:
  assumes srt: "sorted_wrt (\<lambda>a b. fromisoformat E (published_at b)
                                    \<le> fromisoformat E (published_at a)) xs"
  shows "(\<forall>y. y \<in> set (deduplicate xs) \<longleftrightarrow>
            (\<exists>i<length xs. xs ! i = y
               \<and> (\<forall>j<i. \<not> (url (xs ! j) = url y
                             \<and> py_lower (title (xs ! j)) = py_lower (title y)))))
         \<and> (\<forall>i j. i < j \<and> j < length xs
                  \<and> url (xs ! i) = url (xs ! j)
                  \<and> py_lower (title (xs ! i)) = py_lower (title (xs ! j))
                  \<and> fromisoformat E (published_at (xs ! i))
                      \<noteq> fromisoformat E (published_at (xs ! j))
               \<longrightarrow> xs ! j \<notin> set (deduplicate xs)
                   \<and> (\<exists>k\<le>i. xs ! k \<in> set (deduplicate xs)
                          \<and> url (xs ! k) = url (xs ! j)
                          \<and> py_lower (title (xs ! k)) = py_lower (title (xs ! j))
                          \<and> fromisoformat E (published_at (xs ! j))
                              < fromisoformat E (published_at (xs ! k))))"
proof (rule conjI)
  show "\<forall>y. y \<in> set (deduplicate xs) \<longleftrightarrow>
            (\<exists>i<length xs. xs ! i = y
               \<and> (\<forall>j<i. \<not> (url (xs ! j) = url y
                             \<and> py_lower (title (xs ! j)) = py_lower (title y))))"
    by (simp add: deduplicate_member_index item_key_eq)
next
  show "\<forall>i j. i < j \<and> j < length xs
                  \<and> url (xs ! i) = url (xs ! j)
                  \<and> py_lower (title (xs ! i)) = py_lower (title (xs ! j))
                  \<and> fromisoformat E (published_at (xs ! i))
                      \<noteq> fromisoformat E (published_at (xs ! j))
               \<longrightarrow> xs ! j \<notin> set (deduplicate xs)
                   \<and> (\<exists>k\<le>i. xs ! k \<in> set (deduplicate xs)
                          \<and> url (xs ! k) = url (xs ! j)
                          \<and> py_lower (title (xs ! k)) = py_lower (title (xs ! j))
                          \<and> fromisoformat E (published_at (xs ! j))
                              < fromisoformat E (published_at (xs ! k)))"
  proof (intro allI impI)
    fix i j
    assume h: "i < j \<and> j < length xs
                  \<and> url (xs ! i) = url (xs ! j)
                  \<and> py_lower (title (xs ! i)) = py_lower (title (xs ! j))
                  \<and> fromisoformat E (published_at (xs ! i))
                      \<noteq> fromisoformat E (published_at (xs ! j))"
    then have k: "item_key (xs ! i) = item_key (xs ! j)" by (simp add: item_key_eq)
    from h have ij: "i < j" and jl: "j < length xs"
      and ne: "fromisoformat E (published_at (xs ! i)) \<noteq> fromisoformat E (published_at (xs ! j))"
      by simp_all
    from later_duplicate_dropped[of "\<lambda>x. fromisoformat E (published_at x)" xs i j, OF srt ij jl k ne]
    show "xs ! j \<notin> set (deduplicate xs)
                   \<and> (\<exists>k\<le>i. xs ! k \<in> set (deduplicate xs)
                          \<and> url (xs ! k) = url (xs ! j)
                          \<and> py_lower (title (xs ! k)) = py_lower (title (xs ! j))
                          \<and> fromisoformat E (published_at (xs ! j))
                              < fromisoformat E (published_at (xs ! k)))"
      by (simp add: item_key_eq)
  qed
qed

theorem dedup_keeps_newest_witness:
  "sorted_wrt (\<lambda>a b. fromisoformat sample_env (published_at b)
                       \<le> fromisoformat sample_env (published_at a))
     [sample_budget_new, sample_storm, sample_budget_old]
   \<and> url sample_budget_new = url sample_budget_old
   \<and> py_lower (title sample_budget_new) = py_lower (title sample_budget_old)
   \<and> fromisoformat sample_env (published_at sample_budget_new)
       \<noteq> fromisoformat sample_env (published_at sample_budget_old)
   \<and> sample_budget_old \<notin> set (deduplicate [sample_budget_new, sample_storm, sample_budget_old])
   \<and> deduplicate [sample_budget_new, sample_storm, sample_budget_old]
       = [sample_budget_new, sample_storm]"
proof -
  let ?xs = "[sample_budget_new, sample_storm, sample_budget_old]"
  have s: "sorted_wrt (\<lambda>a b. fromisoformat sample_env (published_at b)
                       \<le> fromisoformat sample_env (published_at a)) ?xs"
    by code_simp
  have u: "url sample_budget_new = url sample_budget_old"
    and t: "py_lower (title sample_budget_new) = py_lower (title sample_budget_old)"
    and ne: "fromisoformat sample_env (published_at sample_budget_new)
             \<noteq> fromisoformat sample_env (published_at sample_budget_old)"
    by code_simp+
  have d: "deduplicate ?xs = [sample_budget_new, sample_storm]" by code_simp
  have "0 < (2::nat) \<and> 2 < length ?xs
        \<and> url (?xs ! 0) = url (?xs ! 2)
        \<and> py_lower (title (?xs ! 0)) = py_lower (title (?xs ! 2))
        \<and> fromisoformat sample_env (published_at (?xs ! 0))
            \<noteq> fromisoformat sample_env (published_at (?xs ! 2))"
    using u t ne by simp
  with dedup_keeps_newest[OF s] have "?xs ! 2 \<notin> set (deduplicate ?xs)" by blast
  then have "sample_budget_old \<notin> set (deduplicate ?xs)" by simp
  then show ?thesis using s u t ne d by simp
qed

section \<open>Properties of summarize\<close>

lemma py_strip_Nil: "py_strip [] = []"
  by (simp add: py_strip_def)

lemma length_py_strip: "length (py_strip s) \<le> length s"
  unfolding py_strip_def
  by (metis length_rev length_dropWhile_le order_trans)

lemma last_dropWhile_keep: "dropWhile P xs \<noteq> [] \<Longrightarrow> last (dropWhile P xs) = last xs"
  by (induction xs) (auto split: if_splits)

lemma py_strip_last: "py_strip s \<noteq> [] \<Longrightarrow> \<not> py_isspace (last (py_strip s))"
  unfolding py_strip_def by (simp add: last_rev hd_dropWhile)

lemma py_strip_hd: "py_strip s \<noteq> [] \<Longrightarrow> \<not> py_isspace (hd (py_strip s))"
proof -
  assume ne: "py_strip s \<noteq> []"
  let ?t = "dropWhile py_isspace s"
  from ne have d: "dropWhile py_isspace (rev ?t) \<noteq> []" by (simp add: py_strip_def)
  have t: "?t \<noteq> []"
  proof
    assume "?t = []"
    with d show False by simp
  qed
  have "hd (py_strip s) = last (dropWhile py_isspace (rev ?t))"
    using d by (simp add: py_strip_def hd_rev)
  also have "\<dots> = last (rev ?t)" using d by (rule last_dropWhile_keep)
  also have "\<dots> = hd ?t" using t by (simp add: last_rev)
  finally show ?thesis using t by (simp add: hd_dropWhile)
qed

lemma py_strip_idem: "py_strip (py_strip s) = py_strip s"
proof (cases "py_strip s = []")
  case True
  then show ?thesis by (simp add: py_strip_Nil)
next
  case False
  let ?r = "py_strip s"
  have h: "\<not> py_isspace (hd ?r)" and l: "\<not> py_isspace (last ?r)"
    using False py_strip_hd py_strip_last by auto
  have a: "dropWhile py_isspace ?r = ?r" using False h by (cases ?r) auto
  have "dropWhile py_isspace (rev ?r) = rev ?r"
    using False l by (cases "rev ?r") (auto simp: last_rev[symmetric] hd_rev)
  then show ?thesis using a by (simp add: py_strip_def[of "py_strip s"])
qed

lemma length_py_slice_to: "0 \<le> n \<Longrightarrow> int (length (py_slice_to xs n)) \<le> n"
  by (simp add: py_slice_to_def)

text \<open>
  C4. For every input text and every \<open>max_chars \<ge> 0\<close>, the summary has at most
  \<open>max_chars\<close> characters and no white space at either end (stripping it again changes
  nothing); a missing or empty text gives the empty string.
\<close>

theorem summarize_bounded:
  assumes "0 \<le> max_chars"
  shows "int (length (summarize E text max_chars)) \<le> max_chars
         \<and> py_strip (summarize E text max_chars) = summarize E text max_chars
         \<and> (summarize E text max_chars \<noteq> []
              \<longrightarrow> \<not> py_isspace (hd (summarize E text max_chars))
                  \<and> \<not> py_isspace (last (summarize E text max_chars)))
         \<and> summarize E None max_chars = []
         \<and> summarize E (Some []) max_chars = []"
proof -
  have len: "int (length (py_strip (py_slice_to xs max_chars))) \<le> max_chars" for xs :: string
    using length_py_strip[of "py_slice_to xs max_chars"] length_py_slice_to[OF assms, of xs]
    by linarith
  have shape: "summarize E text max_chars = []
               \<or> (\<exists>xs. summarize E text max_chars = py_strip (py_slice_to xs max_chars))"
    by (auto simp: summarize_def Let_def split: option.splits)
  have e1: "summarize E None max_chars = []" and e2: "summarize E (Some []) max_chars = []"
    by (simp_all add: summarize_def)
  from shape show ?thesis
  proof
    assume "summarize E text max_chars = []"
    then show ?thesis using assms e1 e2 by (simp add: py_strip_Nil)
  next
    assume "\<exists>xs. summarize E text max_chars = py_strip (py_slice_to xs max_chars)"
    then obtain xs where x: "summarize E text max_chars = py_strip (py_slice_to xs max_chars)" ..
    show ?thesis
      unfolding x using len[of xs] py_strip_idem py_strip_hd py_strip_last e1 e2
      by simp
  qed
qed

theorem summarize_bounded_witness:
  "(0::int) \<le> 12
   \<and> summarize sample_env (Some ''It rains. We stay.'') 12 = ''It rains.''
   \<and> int (length (summarize sample_env (Some ''It rains. We stay.'') 12)) \<le> 12"
proof -
  have e: "summarize sample_env (Some ''It rains. We stay.'') 12 = ''It rains.''"
    by code_simp
  have "int (length (summarize sample_env (Some ''It rains. We stay.'') 12)) \<le> 12"
    using summarize_bounded[of 12 sample_env "Some ''It rains. We stay.''"] by simp
  then show ?thesis using e by simp
qed

lemma charge_nonneg: "0 \<le> charge parts"
  unfolding charge_def by (induction parts) auto

lemma charge_append: "charge (xs @ ys) = charge xs + charge ys"
  by (simp add: charge_def)

lemma charge_take_mono: "charge (take j S) \<le> charge (take (j + d) S)"
proof -
  have "take (j + d) S = take j S @ take d (drop j S)" by (simp add: take_add)
  then show ?thesis using charge_nonneg[of "take d (drop j S)"] by (simp add: charge_append)
qed

lemma accumulate_prefix:
  "\<exists>k\<le>length (nonempty_sentences sents).
      accumulate m parts tot sents = parts @ take k (nonempty_sentences sents)
      \<and> (0 < k \<longrightarrow> tot + charge (take k (nonempty_sentences sents)) \<le> m)
      \<and> (k < length (nonempty_sentences sents)
           \<longrightarrow> m < tot + charge (take (Suc k) (nonempty_sentences sents)))"
proof (induction sents arbitrary: parts tot)
  case Nil
  then show ?case by (simp add: nonempty_sentences_def)
next
  case (Cons s sents)
  let ?S = "nonempty_sentences sents"
  show ?case
  proof (cases "py_strip s = []")
    case True
    then have "nonempty_sentences (s # sents) = ?S" by (simp add: nonempty_sentences_def)
    then show ?thesis using Cons.IH[of parts tot] True by (simp add: Let_def)
  next
    case False
    then have S: "nonempty_sentences (s # sents) = py_strip s # ?S"
      by (simp add: nonempty_sentences_def)
    show ?thesis
    proof (cases "tot + int (length (py_strip s)) + 1 > m")
      case True
      have "accumulate m parts tot (s # sents) = parts" using False True by (simp add: Let_def)
      then show ?thesis
        unfolding S using True by (intro exI[of _ 0]) (simp add: charge_def)
    next
      case fits: False
      let ?t = "tot + int (length (py_strip s)) + 1"
      from Cons.IH[of "parts @ [py_strip s]" ?t]
      obtain k where k: "k \<le> length ?S"
         "accumulate m (parts @ [py_strip s]) ?t sents = (parts @ [py_strip s]) @ take k ?S"
         "0 < k \<longrightarrow> ?t + charge (take k ?S) \<le> m"
         "k < length ?S \<longrightarrow> m < ?t + charge (take (Suc k) ?S)"
        by blast
      have a: "accumulate m parts tot (s # sents) = parts @ take (Suc k) (py_strip s # ?S)"
        using False fits k(2) by (simp add: Let_def)
      have b: "tot + charge (take (Suc k) (py_strip s # ?S)) \<le> m"
      proof (cases "k = 0")
        case True then show ?thesis using fits by (simp add: charge_def)
      next
        case False then show ?thesis using k(3) by (simp add: charge_def add.assoc)
      qed
      have c: "Suc k < length (py_strip s # ?S)
               \<longrightarrow> m < tot + charge (take (Suc (Suc k)) (py_strip s # ?S))"
        using k(4) by (simp add: charge_def add.assoc)
      show ?thesis
        unfolding S using a b c k(1) by (intro exI[of _ "Suc k"]) simp
    qed
  qed
qed


lemma py_join_snoc: "ps \<noteq> [] \<Longrightarrow> py_join sep (ps @ [q]) = py_join sep ps @ sep @ q"
  by (induction sep ps rule: py_join.induct) auto

lemma length_py_join: "ps \<noteq> [] \<Longrightarrow> int (length (py_join '' '' ps)) = charge ps - 1"
  by (induction "'' ''" ps rule: py_join.induct) (auto simp: charge_def)

lemma hd_py_join: "ps \<noteq> [] \<Longrightarrow> hd ps \<noteq> [] \<Longrightarrow> hd (py_join sep ps) = hd (hd ps)"
  by (induction sep ps rule: py_join.induct) auto

lemma last_py_join:
  assumes "ps \<noteq> []" "last ps \<noteq> []"
  shows "last (py_join sep ps) = last (last ps)"
proof (cases "butlast ps = []")
  case True
  then have "ps = [last ps]" using assms(1) by (metis append_butlast_last_id append_Nil)
  then have "py_join sep ps = last ps" by (metis py_join.simps(2))
  then show ?thesis by simp
next
  case False
  have "py_join sep (butlast ps @ [last ps]) = py_join sep (butlast ps) @ sep @ last ps"
    using False by (rule py_join_snoc)
  then have "py_join sep ps = py_join sep (butlast ps) @ sep @ last ps"
    using assms(1) by simp
  then show ?thesis using assms(2) by simp
qed

lemma py_join_nonempty: "ps \<noteq> [] \<Longrightarrow> hd ps \<noteq> [] \<Longrightarrow> py_join sep ps \<noteq> []"
  by (induction sep ps rule: py_join.induct) auto

lemma py_strip_id:
  assumes "xs \<noteq> []" "\<not> py_isspace (hd xs)" "\<not> py_isspace (last xs)"
  shows "py_strip xs = xs"
proof -
  have a: "dropWhile py_isspace xs = xs" using assms by (cases xs) auto
  have "dropWhile py_isspace (rev xs) = rev xs"
    using assms by (cases "rev xs") (auto simp: last_rev[symmetric] hd_rev)
  then show ?thesis using a by (simp add: py_strip_def)
qed

lemma nonempty_sentences_elem:
  "s \<in> set (nonempty_sentences sents)
   \<Longrightarrow> s \<noteq> [] \<and> \<not> py_isspace (hd s) \<and> \<not> py_isspace (last s)"
  using py_strip_hd py_strip_last by (auto simp: nonempty_sentences_def)

lemma py_strip_join_take:
  assumes "0 < k" "k \<le> length (nonempty_sentences sents)"
  shows "py_strip (py_join '' '' (take k (nonempty_sentences sents)))
         = py_join '' '' (take k (nonempty_sentences sents))"
proof -
  let ?S = "nonempty_sentences sents"
  let ?P = "take k ?S"
  have ne: "?P \<noteq> []" using assms by auto
  have "hd ?P \<in> set ?S" and "last ?P \<in> set ?S"
    using ne by (metis hd_in_set in_set_takeD, metis last_in_set in_set_takeD)
  then have h: "hd ?P \<noteq> [] \<and> \<not> py_isspace (hd (hd ?P))"
    and l: "last ?P \<noteq> [] \<and> \<not> py_isspace (last (last ?P))"
    using nonempty_sentences_elem by blast+
  show ?thesis
    using ne h l by (intro py_strip_id) (simp_all add: py_join_nonempty hd_py_join last_py_join)
qed

lemma fallback_twice:
  assumes "0 \<le> m"
  shows "py_strip (py_slice_to (py_strip (py_slice_to c m)) m) = py_strip (py_slice_to c m)"
proof -
  have "length (py_strip (py_slice_to c m)) \<le> nat m"
    using length_py_strip[of "py_slice_to c m"] assms by (simp add: py_slice_to_def)
  then have "py_slice_to (py_strip (py_slice_to c m)) m = py_strip (py_slice_to c m)"
    using assms by (simp add: py_slice_to_def)
  then show ?thesis by (simp add: py_strip_idem)
qed

lemma summarize_greedy:
  assumes t: "t \<noteq> []" and m: "0 \<le> m"
  shows "\<exists>k\<le>length (nonempty_sentences (sent_tokenize E (html_unescape E (sub_tags 0 t)))).
           (0 < k \<longrightarrow> charge (take k (nonempty_sentences
                             (sent_tokenize E (html_unescape E (sub_tags 0 t))))) \<le> m)
         \<and> (k < length (nonempty_sentences (sent_tokenize E (html_unescape E (sub_tags 0 t))))
              \<longrightarrow> m < charge (take (Suc k) (nonempty_sentences
                             (sent_tokenize E (html_unescape E (sub_tags 0 t))))))
         \<and> summarize E (Some t) m
             = (if 0 < k
                then py_join '' '' (take k (nonempty_sentences
                             (sent_tokenize E (html_unescape E (sub_tags 0 t)))))
                else py_strip (py_slice_to (html_unescape E (sub_tags 0 t)) m))"
proof -
  let ?c = "html_unescape E (sub_tags 0 t)"
  let ?S = "nonempty_sentences (sent_tokenize E ?c)"
  from accumulate_prefix[of "sent_tokenize E ?c" m "[]" 0]
  obtain k where k: "k \<le> length ?S"
     "accumulate m [] 0 (sent_tokenize E ?c) = take k ?S"
     "0 < k \<longrightarrow> charge (take k ?S) \<le> m"
     "k < length ?S \<longrightarrow> m < charge (take (Suc k) ?S)"
    by auto
  have res: "summarize E (Some t) m
             = (if 0 < k then py_join '' '' (take k ?S) else py_strip (py_slice_to ?c m))"
  proof (cases "0 < k")
    case True
    then have ne: "take k ?S \<noteq> []" using k(1) by auto
    have "int (length (py_join '' '' (take k ?S))) \<le> m"
      using length_py_join[OF ne] k(3) True by simp
    then have "py_slice_to (py_join '' '' (take k ?S)) m = py_join '' '' (take k ?S)"
      using m by (simp add: py_slice_to_def)
    then show ?thesis
      using True t ne k(2) py_strip_join_take[OF True k(1)]
      by (simp add: summarize_def Let_def)
  next
    case False
    then show ?thesis
      using t k(2) fallback_twice[OF m] by (simp add: summarize_def Let_def)
  qed
  show ?thesis using k(1) k(3) k(4) res by blast
qed

lemma py_strip_take_blank: "py_strip c = [] \<Longrightarrow> py_strip (take n c) = []"
proof -
  assume a: "py_strip c = []"
  have d: "dropWhile py_isspace c = []"
  proof (rule ccontr)
    assume ne: "dropWhile py_isspace c \<noteq> []"
    then have "\<not> py_isspace (hd (dropWhile py_isspace c))" by (simp add: hd_dropWhile)
    then have "\<not> py_isspace (last (rev (dropWhile py_isspace c)))"
      using ne by (simp add: last_rev)
    then have "dropWhile py_isspace (rev (dropWhile py_isspace c)) \<noteq> []"
      using ne by (metis dropWhile_eq_Nil_conv last_in_set rev_is_Nil_conv)
    then show False using a by (simp add: py_strip_def)
  qed
  then have "\<forall>x\<in>set c. py_isspace x" by (metis dropWhile_eq_Nil_conv)
  then have "\<forall>x\<in>set (take n c). py_isspace x" by (meson in_set_takeD)
  then have "dropWhile py_isspace (take n c) = []" by (metis dropWhile_eq_Nil_conv)
  then show ?thesis unfolding py_strip_def by (simp only: rev.simps dropWhile.simps)
qed

text \<open>
  C6, as the code has it. For a non-empty text and \<open>max_chars \<ge> 0\<close> the summary is made of
  the first \<open>k\<close> non-empty sentences, in order and joined by single spaces, where \<open>k\<close> is
  the number of leading sentences whose lengths, each counted with one more character
  for a space (the last sentence too), stay within \<open>max_chars\<close>; the loop stops at the
  first sentence that does not fit and looks at no later one. When \<open>k = 0\<close> the summary
  is the first \<open>max_chars\<close> characters of the cleaned text, stripped.
\<close>

theorem summarize_greedy_prefix:
  assumes "t \<noteq> []" and "0 \<le> m"
  shows "\<exists>k\<le>length (candidate_sentences E t).
           (0 < k \<longrightarrow> charge (take k (candidate_sentences E t)) \<le> m)
         \<and> (k < length (candidate_sentences E t)
              \<longrightarrow> m < charge (take (Suc k) (candidate_sentences E t)))
         \<and> summarize E (Some t) m
             = (if 0 < k then py_join '' '' (take k (candidate_sentences E t))
                else py_strip (py_slice_to (cleaned_text E t) m))"
  unfolding candidate_sentences_def cleaned_text_def
  using assms by (rule summarize_greedy)

theorem summarize_greedy_prefix_witness:
  "''Snow fell. Roads closed.'' \<noteq> [] \<and> (0::int) \<le> 24
   \<and> candidate_sentences sample_env ''Snow fell. Roads closed.'' = [''Snow fell.'', ''Roads closed.'']
   \<and> summarize sample_env (Some ''Snow fell. Roads closed.'') 24 = ''Snow fell.''
   \<and> summarize sample_env (Some ''This is a very long sentence that cannot fit.'') 10 = ''This is a''
   \<and> (\<exists>k\<le>length (candidate_sentences sample_env ''Snow fell. Roads closed.'').
           (0 < k \<longrightarrow> charge (take k (candidate_sentences sample_env ''Snow fell. Roads closed.'')) \<le> 24)
         \<and> (k < length (candidate_sentences sample_env ''Snow fell. Roads closed.'')
              \<longrightarrow> 24 < charge (take (Suc k) (candidate_sentences sample_env ''Snow fell. Roads closed.'')))
         \<and> summarize sample_env (Some ''Snow fell. Roads closed.'') 24
             = (if 0 < k then py_join '' '' (take k (candidate_sentences sample_env ''Snow fell. Roads closed.''))
                else py_strip (py_slice_to (cleaned_text sample_env ''Snow fell. Roads closed.'') 24)))"
proof -
  have a: "candidate_sentences sample_env ''Snow fell. Roads closed.'' = [''Snow fell.'', ''Roads closed.'']"
    by code_simp
  have b: "summarize sample_env (Some ''Snow fell. Roads closed.'') 24 = ''Snow fell.''"
    by code_simp
  have c: "summarize sample_env (Some ''This is a very long sentence that cannot fit.'') 10 = ''This is a''"
    by code_simp
  have t: "''Snow fell. Roads closed.'' \<noteq> []" and m: "(0::int) \<le> 24" by simp_all
  note e = summarize_greedy_prefix[OF t m, of sample_env]
  show ?thesis by (intro conjI t m a b c e)
qed

text \<open>
  C6 as stated fails: with a limit of 24 the two sentences of
  \<open>Snow fell. Roads closed.\<close> joined by a space have exactly 24 characters, so adding the
  second one would not exceed the limit, and the code stops before it.
\<close>

theorem summarize_stops_early_counterexample:
  "summarize sample_env (Some ''Snow fell. Roads closed.'') 24 = ''Snow fell.''
   \<and> spec_summarize sample_env ''Snow fell. Roads closed.'' 24 = ''Snow fell. Roads closed.''
   \<and> int (length (py_join '' '' [''Snow fell.'', ''Roads closed.''])) \<le> 24"
  by code_simp

text \<open>
  C5, as the code has it. When the cleaned text, stripped, is its non-empty sentences
  joined by single spaces and is strictly shorter than \<open>max_chars\<close>, the summary is the
  cleaned, stripped text. (\<open>html.unescape\<close> maps the empty string to itself.)
\<close>

theorem summarize_roundtrip:
  assumes unesc: "html_unescape E [] = []"
      and joined: "py_join '' '' (candidate_sentences E t) = py_strip (cleaned_text E t)"
      and short: "int (length (py_strip (cleaned_text E t))) < m"
  shows "summarize E (Some t) m = py_strip (cleaned_text E t)"
proof (cases "t = []")
  case True
  then show ?thesis using unesc by (simp add: summarize_def cleaned_text_def py_strip_Nil)
next
  case False
  let ?S = "candidate_sentences E t"
  have m: "0 \<le> m" using short by linarith
  from summarize_greedy[OF False m, of E]
  obtain k where k: "k \<le> length ?S"
      "0 < k \<longrightarrow> charge (take k ?S) \<le> m"
      "k < length ?S \<longrightarrow> m < charge (take (Suc k) ?S)"
      "summarize E (Some t) m
         = (if 0 < k then py_join '' '' (take k ?S)
            else py_strip (py_slice_to (cleaned_text E t) m))"
    unfolding candidate_sentences_def cleaned_text_def by blast
  show ?thesis
  proof (cases "?S = []")
    case True
    then have "py_strip (cleaned_text E t) = []" using joined by simp
    then show ?thesis
      using k(1) k(4) True m py_strip_take_blank[of "cleaned_text E t" "nat m"]
      by (simp add: py_slice_to_def)
  next
    case ne: False
    have "charge ?S = int (length (py_join '' '' ?S)) + 1"
      using length_py_join[OF ne] by simp
    then have all: "charge ?S \<le> m" using joined short by simp
    have "k = length ?S"
    proof (rule ccontr)
      assume "k \<noteq> length ?S"
      then have lt: "k < length ?S" using k(1) by simp
      have "charge (take (Suc k) ?S) \<le> charge (take (Suc k + (length ?S - Suc k)) ?S)"
        by (rule charge_take_mono)
      then have "charge (take (Suc k) ?S) \<le> charge ?S" using lt by simp
      then show False using k(3) lt all by linarith
    qed
    then show ?thesis using k(4) ne joined by simp
  qed
qed

theorem summarize_roundtrip_witness:
  "html_unescape sample_env [] = []
   \<and> py_join '' '' (candidate_sentences sample_env ''It rains. We stay.'')
       = py_strip (cleaned_text sample_env ''It rains. We stay.'')
   \<and> int (length (py_strip (cleaned_text sample_env ''It rains. We stay.''))) < 19
   \<and> summarize sample_env (Some ''It rains. We stay.'') 19 = ''It rains. We stay.''"
proof -
  have a: "html_unescape sample_env [] = []" by code_simp
  have b: "py_join '' '' (candidate_sentences sample_env ''It rains. We stay.'')
       = py_strip (cleaned_text sample_env ''It rains. We stay.'')" by code_simp
  have c: "int (length (py_strip (cleaned_text sample_env ''It rains. We stay.''))) < 19"
    by code_simp
  have d: "py_strip (cleaned_text sample_env ''It rains. We stay.'') = ''It rains. We stay.''"
    by code_simp
  show ?thesis using summarize_roundtrip[OF a b c] a b c d by simp
qed

text \<open>
  C5 as stated fails in two ways: a cleaned text of exactly \<open>max_chars\<close> characters with
  two sentences loses its last sentence, and a cleaned text in which tags left more
  than one space between two sentences comes back with single spaces.
\<close>

theorem summarize_roundtrip_counterexample:
  "int (length (cleaned_text sample_env ''It rains. We stay.'')) \<le> 18
   \<and> summarize sample_env (Some ''It rains. We stay.'') 18
       \<noteq> py_strip (cleaned_text sample_env ''It rains. We stay.'')
   \<and> int (length (cleaned_text sample_env ''<p>It rains.</p><p>We stay.</p>'')) \<le> 500
   \<and> summarize sample_env (Some ''<p>It rains.</p><p>We stay.</p>'') 500
       \<noteq> py_strip (cleaned_text sample_env ''<p>It rains.</p><p>We stay.</p>'')"
  by code_simp

section \<open>Properties of the bias heuristics\<close>

lemma py_contains_iff: "py_contains needle hay \<longleftrightarrow> (\<exists>pre post. hay = pre @ needle @ post)"
proof (induction hay)
  case Nil
  then show ?case by auto
next
  case (Cons c cs)
  show ?case
  proof
    assume "py_contains needle (c # cs)"
    then consider "prefix needle (c # cs)" | "py_contains needle cs" by auto
    then show "\<exists>pre post. c # cs = pre @ needle @ post"
    proof cases
      case 1
      then obtain post where "c # cs = needle @ post" by (auto simp: prefix_def)
      then have "c # cs = [] @ needle @ post" by simp
      then show ?thesis by blast
    next
      case 2
      then obtain pre post where "cs = pre @ needle @ post" using Cons.IH by blast
      then have "c # cs = (c # pre) @ needle @ post" by simp
      then show ?thesis by blast
    qed
  next
    assume "\<exists>pre post. c # cs = pre @ needle @ post"
    then obtain pre post where e: "c # cs = pre @ needle @ post" by blast
    show "py_contains needle (c # cs)"
    proof (cases pre)
      case Nil
      then have "prefix needle (c # cs)" using e by (simp add: prefix_def)
      then show ?thesis by simp
    next
      case (Cons a pre')
      then have "cs = pre' @ needle @ post" using e by simp
      then have "py_contains needle cs" using Cons.IH by blast
      then show ?thesis by simp
    qed
  qed
qed

text \<open>
  C7, as the code has it. The article type is \<open>Opinion\<close> exactly when the lowercased URL,
  taken as a whole string, contains \<open>/opinion/\<close> with both slashes, and \<open>News\<close> otherwise;
  the title and the summary play no part.
\<close>

theorem article_type_substring:
  "article_type (to_dict E (compute_bias E u ttl summary))
     = (if (\<exists>pre post. py_lower u = pre @ ''/opinion/'' @ post) then ''Opinion'' else ''News'')
   \<and> (article_type (to_dict E (compute_bias E u ttl summary)) = ''Opinion''
        \<longleftrightarrow> (\<exists>pre post. py_lower u = pre @ ''/opinion/'' @ post))"
  by (simp add: to_dict_def compute_bias_def detect_article_type_def py_contains_iff)

theorem article_type_substring_witness:
  "article_type (to_dict sample_env (compute_bias sample_env ''https://www.cbc.ca/news/Opinion/x'' ''Budget'' ''''))
     = ''Opinion''
   \<and> (\<exists>pre post. py_lower ''https://www.cbc.ca/news/Opinion/x'' = pre @ ''/opinion/'' @ post)"
proof -
  have a: "article_type (to_dict sample_env (compute_bias sample_env ''https://www.cbc.ca/news/Opinion/x'' ''Budget'' ''''))
     = ''Opinion''" by code_simp
  show ?thesis
    using article_type_substring[of sample_env "''https://www.cbc.ca/news/Opinion/x''" "''Budget''" "''''"] a
    by simp
qed

text \<open>
  C7 as stated fails: a URL whose path ends in the segment \<open>opinion\<close> is classified
  \<open>News\<close>, and a URL that has \<open>/opinion/\<close> only in its query string is classified \<open>Opinion\<close>.
\<close>

theorem article_type_segment_counterexample:
  "has_opinion_segment ''https://www.cbc.ca/opinion''
   \<and> detect_article_type ''https://www.cbc.ca/opinion'' = ''News''
   \<and> \<not> has_opinion_segment ''https://www.cbc.ca/news/story-1?from=/opinion/''
   \<and> detect_article_type ''https://www.cbc.ca/news/story-1?from=/opinion/'' = ''Opinion''"
  by code_simp

subsection \<open>The subjectivity count\<close>

lemma plain_lists: "\<forall>w\<in>set first_person. plain_word w" "\<forall>w\<in>set modal_verbs. plain_word w"
  "\<forall>w\<in>set evaluatives. plain_word w"
  by (simp_all add: first_person_def modal_verbs_def evaluatives_def plain_word_def
        ascii_letter_def codepoints_def)

lemma word_boundary_iff: "word_boundary E a b \<longleftrightarrow> isword_opt E a \<noteq> isword_opt E b"
  by (simp add: word_boundary_def isword_opt_def)

lemma char_at_nth: "char_at s i = (if i < length s then Some (s ! i) else None)"
  by (induction s i rule: char_at.induct) auto

lemma match_literal_iff:
  "match_literal E w s \<longleftrightarrow>
     length w \<le> length s \<and> list_all2 (literal_char E) w (take (length w) s)"
  by (induction E w s rule: match_literal.induct) auto

lemma match_literal_words:
  "letters_are_words E \<Longrightarrow> \<forall>p\<in>set w. ascii_letter p \<Longrightarrow> match_literal E w s
   \<Longrightarrow> \<forall>c\<in>set (take (length w) s). unicode_isword E c"
proof (induction E w s rule: match_literal.induct)
  case 1
  then show ?case by simp
next
  case 2
  then show ?case by simp
next
  case (3 E p ps c cs)
  have "ascii_letter p \<and> literal_char E p c" using 3 by simp
  then have pc: "unicode_isword E c" using 3(2) unfolding letters_are_words_def by blast
  have "\<forall>c\<in>set (take (length ps) cs). unicode_isword E c" using 3 by simp
  then show ?case using pc by simp
qed

lemma match_literal_length: "match_literal E w s \<Longrightarrow> length w \<le> length s"
  by (simp add: match_literal_iff)

lemma end_boundary:
  assumes "letters_are_words E" "plain_word w" "match_literal E w s"
  shows "word_boundary E (if w = [] then prev else char_at s (length w - 1)) (char_at s (length w))
         \<longleftrightarrow> \<not> isword_opt E (char_at s (length w))"
proof -
  have ne: "w \<noteq> []" and letters: "\<forall>p\<in>set w. ascii_letter p"
    using assms(2) by (simp_all add: plain_word_def)
  have len: "length w \<le> length s" using assms(3) by (rule match_literal_length)
  have pos: "length w - 1 < length w" using ne by (cases w) simp_all
  then have lt: "length w - 1 < length s" using len by simp
  have "s ! (length w - 1) = take (length w) s ! (length w - 1)" using pos by simp
  moreover have "take (length w) s ! (length w - 1) \<in> set (take (length w) s)"
    using pos len by (intro nth_mem) simp
  ultimately have "unicode_isword E (s ! (length w - 1))"
    using match_literal_words[OF assms(1) letters assms(3)] by simp
  then have "isword_opt E (char_at s (length w - 1))"
    using lt by (simp add: char_at_nth isword_opt_def)
  then show ?thesis using ne by (simp add: word_boundary_iff)
qed

lemma match_alternatives_Some:
  "letters_are_words E \<Longrightarrow> \<forall>w\<in>set ws. plain_word w \<Longrightarrow> match_alternatives E ws prev s = Some n
   \<Longrightarrow> \<exists>w\<in>set ws. n = length w \<and> match_literal E w s
                \<and> \<not> isword_opt E (char_at s (length w))"
proof (induction ws)
  case Nil
  then show ?case by simp
next
  case (Cons w ws)
  show ?case
  proof (cases "match_literal E w s")
    case True
    have pw: "plain_word w" using Cons.prems(2) by simp
    note eb = end_boundary[OF Cons.prems(1) pw True, of prev]
    show ?thesis
    proof (cases "isword_opt E (char_at s (length w))")
      case True
      then have "match_alternatives E (w # ws) prev s = match_alternatives E ws prev s"
        using eb by simp
      then show ?thesis using Cons by auto
    next
      case False
      then have "match_alternatives E (w # ws) prev s = Some (length w)"
        using eb \<open>match_literal E w s\<close> by simp
      then show ?thesis using Cons.prems(3) False \<open>match_literal E w s\<close> by auto
    qed
  next
    case False
    then have "match_alternatives E (w # ws) prev s = match_alternatives E ws prev s" by simp
    then show ?thesis using Cons by auto
  qed
qed

lemma match_alternatives_None:
  "letters_are_words E \<Longrightarrow> \<forall>w\<in>set ws. plain_word w \<Longrightarrow> match_alternatives E ws prev s = None
   \<Longrightarrow> \<not> (\<exists>w\<in>set ws. match_literal E w s \<and> \<not> isword_opt E (char_at s (length w)))"
proof (induction ws)
  case Nil
  then show ?case by simp
next
  case (Cons w ws)
  show ?case
  proof (cases "match_literal E w s")
    case True
    have pw: "plain_word w" using Cons.prems(2) by simp
    note eb = end_boundary[OF Cons.prems(1) pw True, of prev]
    have w: "isword_opt E (char_at s (length w))"
    proof (rule ccontr)
      assume "\<not> isword_opt E (char_at s (length w))"
      then have "match_alternatives E (w # ws) prev s = Some (length w)"
        using eb True by simp
      then show False using Cons.prems(3) by simp
    qed
    then have "match_alternatives E ws prev s = None" using Cons.prems(3) eb by simp
    then show ?thesis using Cons w by auto
  next
    case False
    then have "match_alternatives E ws prev s = None" using Cons.prems(3) by simp
    then show ?thesis using Cons False by auto
  qed
qed

lemma match_here_Some:
  assumes lw: "letters_are_words E" and pl: "\<forall>w\<in>set ws. plain_word w"
    and m: "match_here E ws prev s = Some n"
  shows "occ_here E ws prev s \<and> 0 < n \<and> n \<le> length s
         \<and> (\<forall>c\<in>set (take n s). unicode_isword E c)"
proof -
  have b: "word_boundary E prev (char_at s 0)" and a: "match_alternatives E ws prev s = Some n"
    using m by (auto simp: match_here_def split: if_splits)
  from match_alternatives_Some[OF lw pl a]
  obtain w where w: "w \<in> set ws" "n = length w" "match_literal E w s"
      "\<not> isword_opt E (char_at s (length w))" by blast
  have pw: "plain_word w" using pl w(1) by simp
  then have ne: "w \<noteq> []" and letters: "\<forall>p\<in>set w. ascii_letter p"
    by (simp_all add: plain_word_def)
  have len: "n \<le> length s" using w(2,3) by (simp add: match_literal_length)
  have words: "\<forall>c\<in>set (take n s). unicode_isword E c"
    using match_literal_words[OF lw letters w(3)] w(2) by simp
  have pos: "0 < n" using ne w(2) by simp
  then have "s \<noteq> []" using len by auto
  then obtain c cs where s: "s = c # cs" by (cases s) auto
  have "unicode_isword E c" using words pos s by (cases n) auto
  then have "isword_opt E (char_at s 0)" using s by (simp add: isword_opt_def)
  then have "\<not> isword_opt E prev" using b by (simp add: word_boundary_iff)
  then have "occ_here E ws prev s" using w by (auto simp: occ_here_def)
  then show ?thesis using pos len words by simp
qed

lemma match_here_None:
  assumes lw: "letters_are_words E" and pl: "\<forall>w\<in>set ws. plain_word w"
    and m: "match_here E ws prev s = None"
  shows "\<not> occ_here E ws prev s"
proof
  assume "occ_here E ws prev s"
  then obtain w where w: "w \<in> set ws" "match_literal E w s" "\<not> isword_opt E prev"
      "\<not> isword_opt E (char_at s (length w))" by (auto simp: occ_here_def)
  have pw: "plain_word w" using pl w(1) by simp
  then have ne: "w \<noteq> []" and letters: "\<forall>p\<in>set w. ascii_letter p"
    by (simp_all add: plain_word_def)
  have "length w \<le> length s" using w(2) by (rule match_literal_length)
  then obtain c cs where s: "s = c # cs" using ne by (cases s) auto
  have "c \<in> set (take (length w) s)" using ne s by (cases w) auto
  then have "unicode_isword E c" using match_literal_words[OF lw letters w(2)] by blast
  then have "word_boundary E prev (char_at s 0)"
    using w(3) s by (simp add: word_boundary_iff isword_opt_def)
  then have "match_alternatives E ws prev s = None" using m by (simp add: match_here_def)
  from match_alternatives_None[OF lw pl this] show False using w by blast
qed

lemma findall_count_occ:
  assumes lw: "letters_are_words E" and pl: "\<forall>w\<in>set ws. plain_word w"
  shows "k \<le> length s \<Longrightarrow> (\<forall>c\<in>set (take k s). unicode_isword E c)
         \<Longrightarrow> (0 < k \<longrightarrow> isword_opt E prev)
         \<Longrightarrow> findall_count E ws k prev s = occ_count E ws prev s"
proof (induction s arbitrary: k prev)
  case Nil
  then show ?case by simp
next
  case (Cons c cs)
  show ?case
  proof (cases k)
    case (Suc k')
    have cw: "unicode_isword E c" using Cons.prems(2) Suc by simp
    have no: "\<not> occ_here E ws prev (c # cs)"
      using Cons.prems(3) Suc by (simp add: occ_here_def)
    have "findall_count E ws k' (Some c) cs = occ_count E ws (Some c) cs"
      using Cons.prems Suc cw by (intro Cons.IH) (simp_all add: isword_opt_def)
    then show ?thesis using Suc no by simp
  next
    case 0
    show ?thesis
    proof (cases "match_here E ws prev (c # cs)")
      case None
      have no: "\<not> occ_here E ws prev (c # cs)" using match_here_None[OF lw pl None] .
      have "findall_count E ws 0 (Some c) cs = occ_count E ws (Some c) cs"
        by (intro Cons.IH) simp_all
      then show ?thesis using 0 None no by simp
    next
      case (Some n)
      from match_here_Some[OF lw pl Some]
      have yes: "occ_here E ws prev (c # cs)" and pos: "0 < n" and len: "n \<le> length (c # cs)"
        and words: "\<forall>x\<in>set (take n (c # cs)). unicode_isword E x" by simp_all
      obtain n' where n: "n = Suc n'" using pos by (cases n) auto
      have "findall_count E ws n' (Some c) cs = occ_count E ws (Some c) cs"
        using len words n by (intro Cons.IH) (simp_all add: isword_opt_def)
      then show ?thesis using 0 Some yes n by simp
    qed
  qed
qed

lemma occ_here_index:
  "occ_here E ws (if pre = [] then None else Some (last pre)) s
   \<longleftrightarrow> occurs_at (literal_char E) (unicode_isword E) ws (pre @ s) (length pre)"
proof -
  have prev: "isword_opt E (if pre = [] then None else Some (last pre))
              \<longleftrightarrow> \<not> (length pre = 0 \<or> \<not> unicode_isword E ((pre @ s) ! (length pre - 1)))"
    by (cases pre rule: rev_cases) (simp_all add: isword_opt_def nth_append)
  have nxt: "length w \<le> length s \<Longrightarrow>
             isword_opt E (char_at s (length w))
             \<longleftrightarrow> \<not> (length pre + length w = length (pre @ s)
                    \<or> \<not> unicode_isword E ((pre @ s) ! (length pre + length w)))" for w
    by (auto simp: char_at_nth isword_opt_def nth_append)
  show ?thesis
    unfolding occ_here_def occurs_at_def match_literal_iff
    using prev nxt by auto
qed

lemma occ_count_index:
  "occ_count E ws (if pre = [] then None else Some (last pre)) s
   = length (filter (occurs_at (literal_char E) (unicode_isword E) ws (pre @ s))
               [length pre..<length (pre @ s)])"
proof (induction s arbitrary: pre)
  case Nil
  then show ?case by simp
next
  case (Cons c cs)
  have ih: "occ_count E ws (Some c) cs
            = length (filter (occurs_at (literal_char E) (unicode_isword E) ws (pre @ c # cs))
                        [Suc (length pre)..<length (pre @ c # cs)])"
    using Cons.IH[of "pre @ [c]"] by simp
  have split: "[length pre..<length (pre @ c # cs)]
               = length pre # [Suc (length pre)..<length (pre @ c # cs)]"
    by (rule upt_conv_Cons) simp
  show ?case
    unfolding split using ih occ_here_index[of E ws pre "c # cs"] by simp
qed

lemma findall_count_whole_words:
  assumes "letters_are_words E" "\<forall>w\<in>set ws. plain_word w"
  shows "findall_count E ws 0 None s
         = whole_word_count (literal_char E) (unicode_isword E) ws s"
proof -
  have "findall_count E ws 0 None s = occ_count E ws None s"
    using assms by (intro findall_count_occ) simp_all
  also have "\<dots> = whole_word_count (literal_char E) (unicode_isword E) ws s"
    using occ_count_index[of E ws "[]" s] by (simp add: whole_word_count_def)
  finally show ?thesis .
qed

lemma fixes_range:
  assumes "ascii_letter p" "x \<in> set (ascii_tolower p # ignorecase_fixes (ascii_tolower p))"
  shows "(97 \<le> x \<and> x \<le> 122) \<or> x = 305 \<or> x = 383 \<or> x = 8490"
  using assms
  by (auto simp: ascii_letter_def ascii_tolower_def ignorecase_fixes_def split: if_splits)

lemma sample_word_of_lower:
  assumes "(97 \<le> sample_tolower c \<and> sample_tolower c \<le> 122)
           \<or> sample_tolower c = 305 \<or> sample_tolower c = 383 \<or> sample_tolower c = 8490"
  shows "sample_isword c"
proof -
  consider (up) "65 \<le> c \<and> c \<le> 90" | (lat) "192 \<le> c \<and> c \<le> 222 \<and> c \<noteq> 215"
    | (doti) "c = 304" | (kel) "c = 8490"
    | (same) "\<not> (65 \<le> c \<and> c \<le> 90) \<and> \<not> (192 \<le> c \<and> c \<le> 222 \<and> c \<noteq> 215)
              \<and> c \<noteq> 304 \<and> c \<noteq> 8490"
    by blast
  then show ?thesis
  proof cases
    case up then show ?thesis by (simp add: sample_isword_def)
  next
    case lat
    then show ?thesis by (cases "c \<le> 214") (simp_all add: sample_isword_def)
  next
    case doti then show ?thesis by (simp add: sample_isword_def)
  next
    case kel then show ?thesis by (simp add: sample_isword_def)
  next
    case same
    then have "sample_tolower c = c" by (simp add: sample_tolower_def)
    then have "(97 \<le> c \<and> c \<le> 122) \<or> c = 305 \<or> c = 383 \<or> c = 8490" using assms by simp
    then show ?thesis by (auto simp: sample_isword_def)
  qed
qed

lemma sample_tables:
  "unicode_tolower sample_env = sample_tolower" "unicode_isword sample_env = sample_isword"
  by (simp_all add: sample_env_def)

lemma sample_letters_are_words: "letters_are_words sample_env"
  unfolding letters_are_words_def
proof (intro allI impI)
  fix p c
  assume h: "ascii_letter p \<and> literal_char sample_env p c"
  then have "sample_tolower c \<in> set (ascii_tolower p # ignorecase_fixes (ascii_tolower p))"
    unfolding literal_char_def sample_tables by (auto split: if_splits)
  from fixes_range[OF _ this] h have "(97 \<le> sample_tolower c \<and> sample_tolower c \<le> 122)
           \<or> sample_tolower c = 305 \<or> sample_tolower c = 383 \<or> sample_tolower c = 8490"
    by blast
  then have "sample_isword c" by (rule sample_word_of_lower)
  then show "unicode_isword sample_env c" by (simp add: sample_tables)
qed

text \<open>
  C8, as the code has it. On every text, of any code points, the subjectivity hint is
  \<open>low\<close>, \<open>medium\<close> or \<open>high\<close> as the total number of whole-word occurrences of the
  first-person pronouns, the modal verbs and the evaluative adjectives is 0, 1 or 2, or
  at least 3, where a letter of a marker word is matched as \<open>re.IGNORECASE\<close> matches it:
  by a character whose lowercase is the letter's lowercase, or is dotless i for \<open>i\<close>, long
  s for \<open>s\<close>, the Kelvin sign for \<open>k\<close>. The scan of \<open>findall\<close> counts every such occurrence,
  since two whole-word matches never overlap; this rests on the fact of the Unicode
  database that what matches an ASCII letter is a word character. The hint of a record
  is that of its title, a space and its summary.
\<close>

theorem subjectivity_buckets:
  assumes "letters_are_words E"
  shows "subjectivity E (ttl @ [32] @ summary)
           = (let n = marker_count (literal_char E) E (ttl @ [32] @ summary)
              in if n = 0 then ''low'' else if n \<le> 2 then ''medium'' else ''high'')
         \<and> subjectivity_hint (to_dict E (compute_bias E u t s))
             = subjectivity E (codepoints t @ [32] @ codepoints s)"
  using assms
  by (simp add: to_dict_def compute_bias_def subjectivity_def subjectivity_score_def
        marker_count_def findall_count_whole_words plain_lists Let_def codepoints_def)

lemmas scan_eval =
  first_person_def modal_verbs_def evaluatives_def codepoints_def match_here_def
  word_boundary_def sample_tables literal_char_def ascii_letter_def ascii_tolower_def
  ignorecase_fixes_def sample_tolower_def sample_isword_def subjectivity_def
  subjectivity_score_def

lemma sample_high:
  "subjectivity sample_env (codepoints ''We must act'' @ [32] @ codepoints ''This is good.'')
   = ''high''"
  by (simp add: scan_eval)

lemma sample_low:
  "subjectivity sample_env (codepoints ''Yours is a goodness'' @ [32] @ codepoints ''Maybe.'')
   = ''low''"
  by (simp add: scan_eval)

lemma sample_dotless: "subjectivity sample_env [305] = ''medium''"
  by (simp add: scan_eval)

lemma sample_long_s: "subjectivity sample_env [117, 383] = ''medium''"
  by (simp add: scan_eval)

lemma lower_count_dotless:
  "marker_count (same_lowercase sample_env) sample_env [305] = 0"
  by (simp add: marker_count_def whole_word_count_def occurs_at_def same_lowercase_def
        scan_eval)

lemma lower_count_long_s:
  "marker_count (same_lowercase sample_env) sample_env [117, 383] = 0"
  by (simp add: marker_count_def whole_word_count_def occurs_at_def same_lowercase_def
        scan_eval upt_rec)

theorem subjectivity_buckets_witness:
  "letters_are_words sample_env
   \<and> subjectivity sample_env (codepoints ''We must act'' @ [32] @ codepoints ''This is good.'')
       = ''high''
   \<and> 2 < marker_count (literal_char sample_env) sample_env
             (codepoints ''We must act'' @ [32] @ codepoints ''This is good.'')
   \<and> subjectivity_hint (to_dict sample_env
         (compute_bias sample_env [] ''Yours is a goodness'' ''Maybe.'')) = ''low''
   \<and> subjectivity sample_env [305] = ''medium''
   \<and> 0 < marker_count (literal_char sample_env) sample_env ([] @ [32] @ [305])"
proof -
  note w = subjectivity_buckets[OF sample_letters_are_words]
  have n: "2 < marker_count (literal_char sample_env) sample_env
             (codepoints ''We must act'' @ [32] @ codepoints ''This is good.'')"
    using w[of "codepoints ''We must act''" "codepoints ''This is good.''", THEN conjunct1]
      sample_high
    by (simp add: Let_def split: if_splits)
  have l: "subjectivity_hint (to_dict sample_env
         (compute_bias sample_env [] ''Yours is a goodness'' ''Maybe.'')) = ''low''"
    using w[of "[]" "[]" "[]" "''Yours is a goodness''" "''Maybe.''", THEN conjunct2] sample_low
    by simp
  have "subjectivity sample_env ([] @ [32] @ [305]) = ''medium''"
    by (simp add: scan_eval)
  then have d: "0 < marker_count (literal_char sample_env) sample_env ([] @ [32] @ [305])"
    using w[of "[]" "[305]", THEN conjunct1] by (simp add: Let_def split: if_splits)
  show ?thesis using sample_letters_are_words sample_high n l sample_dotless d by blast
qed

text \<open>
  C8 as stated fails: the text made of a dotless i, and the word \<open>us\<close> written with a long
  s, hold no marker word in any case (no character of them has the lowercase of the
  letter it stands for), so the count of the claim is 0 and the hint should be \<open>low\<close>; the
  code counts one occurrence in each and answers \<open>medium\<close>.
\<close>

theorem subjectivity_case_counterexample:
  "subjectivity sample_env [305] = ''medium''
   \<and> marker_count (same_lowercase sample_env) sample_env [305] = 0
   \<and> subjectivity sample_env [117, 383] = ''medium''
   \<and> marker_count (same_lowercase sample_env) sample_env [117, 383] = 0"
  using sample_dotless lower_count_dotless sample_long_s lower_count_long_s by blast

section \<open>Properties of the pipeline\<close>


lemma process_entry_None_iff:
  "process_entry E cfg sec now allow e = None \<longleftrightarrow>
     \<not> truthy (first_present date_keys e)
     \<or> \<not> truthy (parse_date E (the (first_present date_keys e)) (tz_name cfg))
     \<or> fromisoformat E (the (parse_date E (the (first_present date_keys e)) (tz_name cfg)))
         < window_start cfg now"
  by (simp add: process_entry_def Let_def)



lemma first_present_None: "first_present ks e = None \<longleftrightarrow> (\<forall>k\<in>set ks. e k = None)"
  by (induction ks) (auto split: option.splits)

lemma collect_items_set:
  "r \<in> set (collect_items E cfg sec now allow es)
   \<longleftrightarrow> (\<exists>e\<in>set es. process_entry E cfg sec now allow e = Some r)"
  by (induction es) (auto split: option.splits)

lemma collect_items_append:
  "collect_items E cfg sec now allow (es1 @ es2)
   = collect_items E cfg sec now allow es1 @ collect_items E cfg sec now allow es2"
  by (induction es1) (auto split: option.splits)






lemma scrape_all_cong:
  assumes "\<And>sec. scrape_section E cfg sec now (allow_extract cfg) f
                 = scrape_section E cfg sec now (allow_extract cfg) f'"
  shows "scrape_all E cfg now (zip secs (fs1 @ f # fs2))
         = scrape_all E cfg now (zip secs (fs1 @ f' # fs2))"
proof (induction fs1 arbitrary: secs)
  case Nil
  then show ?case using assms by (cases secs) simp_all
next
  case (Cons g fs1)
  show ?case
  proof (cases secs)
    case Nil
    then show ?thesis by simp
  next
    case (Cons a list)
    then show ?thesis using Cons.IH[of list] by (simp split: sum.splits)
  qed
qed

lemma first_present_cases:
  "first_present date_keys e = Some d \<longleftrightarrow>
     (e ''published'' = Some d
      \<or> (e ''published'' = None \<and> e ''updated'' = Some d)
      \<or> (e ''published'' = None \<and> e ''updated'' = None \<and> e ''pubDate'' = Some d)
      \<or> (e ''published'' = None \<and> e ''updated'' = None \<and> e ''pubDate'' = None
          \<and> e ''date'' = Some d))"
  by (auto simp: date_keys_def split: option.splits)

lemma first_present_none_cases:
  "first_present date_keys e = None \<longleftrightarrow>
     (e ''published'' = None \<and> e ''updated'' = None \<and> e ''pubDate'' = None \<and> e ''date'' = None)"
  by (auto simp: date_keys_def split: option.splits)

lemma dropped_entry_section:
  assumes "process_entry E cfg sec now allow e = None"
  shows "scrape_section E cfg sec now allow (Inr (es1 @ e # es2))
         = scrape_section E cfg sec now allow (Inr (es1 @ es2))"
proof -
  have "collect_items E cfg sec now allow (es1 @ e # es2)
        = collect_items E cfg sec now allow (es1 @ es2)"
    using assms by (simp add: collect_items_append)
  then show ?thesis by (simp add: scrape_section_def)
qed

lemma dropped_entry_run:
  assumes "\<And>sec. process_entry E cfg sec now (allow_extract cfg) e = None"
  shows "run E cfg now (fs1 @ Inr (es1 @ e # es2) # fs2)
         = run E cfg now (fs1 @ Inr (es1 @ es2) # fs2)"
proof -
  have "scrape_all E cfg now (zip (sections cfg) (fs1 @ Inr (es1 @ e # es2) # fs2))
        = scrape_all E cfg now (zip (sections cfg) (fs1 @ Inr (es1 @ es2) # fs2))"
    by (rule scrape_all_cong) (rule dropped_entry_section[OF assms])
  then show ?thesis by (simp add: run_def)
qed

text \<open>
  C9. An entry with none of the fields \<open>published\<close>, \<open>updated\<close>, \<open>pubDate\<close>, \<open>date\<close>, or
  whose first present one of them does not parse as a date, yields no record; the
  section result is the result of the section without that entry, it is a result and
  not a failure, every record of another entry is still collected, and the whole run
  gives the snapshot it gives without that entry.
\<close>

theorem undated_entry_dropped:
  assumes "(e ''published'' = None \<and> e ''updated'' = None \<and> e ''pubDate'' = None
              \<and> e ''date'' = None)
           \<or> (\<exists>d. (e ''published'' = Some d
                    \<or> (e ''published'' = None \<and> e ''updated'' = Some d)
                    \<or> (e ''published'' = None \<and> e ''updated'' = None \<and> e ''pubDate'' = Some d)
                    \<or> (e ''published'' = None \<and> e ''updated'' = None \<and> e ''pubDate'' = None
                        \<and> e ''date'' = Some d))
                  \<and> parse_date E d (tz_name cfg) = None)"
  shows "process_entry E cfg sec now allow e = None
         \<and> scrape_section E cfg sec now allow (Inr (es1 @ e # es2))
             = scrape_section E cfg sec now allow (Inr (es1 @ es2))
         \<and> (\<exists>items. scrape_section E cfg sec now allow (Inr (es1 @ e # es2)) = Inr items
                    \<and> (\<forall>e'\<in>set (es1 @ es2). \<forall>r.
                          process_entry E cfg sec now allow e' = Some r
                          \<longrightarrow> r \<in> set (collect_items E cfg sec now allow (es1 @ e # es2))))
         \<and> run E cfg now (fs1 @ Inr (es1 @ e # es2) # fs2)
             = run E cfg now (fs1 @ Inr (es1 @ es2) # fs2)"
proof -
  have none: "process_entry E cfg s now a e = None" for s a
  proof -
    from assms consider "first_present date_keys e = None"
      | d where "first_present date_keys e = Some d" "parse_date E d (tz_name cfg) = None"
      unfolding first_present_none_cases first_present_cases by blast
    then show ?thesis
    proof cases
      case 1
      then show ?thesis by (simp add: process_entry_None_iff truthy_def)
    next
      case 2
      then show ?thesis by (simp add: process_entry_None_iff truthy_def)
    qed
  qed
  have sec: "scrape_section E cfg sec now allow (Inr (es1 @ e # es2))
             = scrape_section E cfg sec now allow (Inr (es1 @ es2))"
    by (rule dropped_entry_section) (rule none)
  have ok: "\<exists>items. scrape_section E cfg sec now allow (Inr (es1 @ e # es2)) = Inr items
                    \<and> (\<forall>e'\<in>set (es1 @ es2). \<forall>r.
                          process_entry E cfg sec now allow e' = Some r
                          \<longrightarrow> r \<in> set (collect_items E cfg sec now allow (es1 @ e # es2)))"
    unfolding collect_items_set by (auto simp: scrape_section_def)
  have rn: "run E cfg now (fs1 @ Inr (es1 @ e # es2) # fs2)
             = run E cfg now (fs1 @ Inr (es1 @ es2) # fs2)"
    by (rule dropped_entry_run) (rule none)
  show ?thesis using none sec ok rn by blast
qed

theorem undated_entry_dropped_witness:
  "entry_undated ''published'' = None \<and> entry_undated ''updated'' = None
   \<and> entry_undated ''pubDate'' = None \<and> entry_undated ''date'' = None
   \<and> entry_unparsed ''published'' = Some ''soon''
   \<and> parse_date sample_env ''soon'' (tz_name sample_cfg) = None
   \<and> process_entry sample_env sample_cfg sample_sec sample_now False entry_undated = None
   \<and> process_entry sample_env sample_cfg sample_sec sample_now False entry_unparsed = None
   \<and> run sample_env sample_cfg sample_now [Inr ([entry_fresh] @ entry_undated # [entry_edge])]
       = run sample_env sample_cfg sample_now [Inr ([entry_fresh] @ [entry_edge])]
   \<and> map title (snapshot_items (run sample_env sample_cfg sample_now
                     [Inr ([entry_fresh] @ entry_undated # [entry_edge])]))
       = [''Budget 2025'', ''Edge'']"
proof -
  have u: "entry_undated ''published'' = None \<and> entry_undated ''updated'' = None
           \<and> entry_undated ''pubDate'' = None \<and> entry_undated ''date'' = None"
    by (simp add: entry_undated_def sample_entry_def)
  have p: "entry_unparsed ''published'' = Some ''soon''"
    by (simp add: entry_unparsed_def sample_entry_def)
  have q: "parse_date sample_env ''soon'' (tz_name sample_cfg) = None" by code_simp
  have t: "map title (snapshot_items (run sample_env sample_cfg sample_now
                     [Inr ([entry_fresh] @ entry_undated # [entry_edge])]))
       = [''Budget 2025'', ''Edge'']" by code_simp
  have a: "(entry_undated ''published'' = None \<and> entry_undated ''updated'' = None
              \<and> entry_undated ''pubDate'' = None \<and> entry_undated ''date'' = None)
           \<or> (\<exists>d. (entry_undated ''published'' = Some d
                    \<or> (entry_undated ''published'' = None \<and> entry_undated ''updated'' = Some d)
                    \<or> (entry_undated ''published'' = None \<and> entry_undated ''updated'' = None
                        \<and> entry_undated ''pubDate'' = Some d)
                    \<or> (entry_undated ''published'' = None \<and> entry_undated ''updated'' = None
                        \<and> entry_undated ''pubDate'' = None \<and> entry_undated ''date'' = Some d))
                  \<and> parse_date sample_env d (tz_name sample_cfg) = None)"
    using u by blast
  have b: "(entry_unparsed ''published'' = None \<and> entry_unparsed ''updated'' = None
              \<and> entry_unparsed ''pubDate'' = None \<and> entry_unparsed ''date'' = None)
           \<or> (\<exists>d. (entry_unparsed ''published'' = Some d
                    \<or> (entry_unparsed ''published'' = None \<and> entry_unparsed ''updated'' = Some d)
                    \<or> (entry_unparsed ''published'' = None \<and> entry_unparsed ''updated'' = None
                        \<and> entry_unparsed ''pubDate'' = Some d)
                    \<or> (entry_unparsed ''published'' = None \<and> entry_unparsed ''updated'' = None
                        \<and> entry_unparsed ''pubDate'' = None \<and> entry_unparsed ''date'' = Some d))
                  \<and> parse_date sample_env d (tz_name sample_cfg) = None)"
    using p q by blast
  note wa = undated_entry_dropped[OF a, of sample_sec sample_now False "[entry_fresh]" "[entry_edge]" "[]" "[]"]
  note wb = undated_entry_dropped[OF b, of sample_sec sample_now False "[]" "[]" "[]" "[]"]
  have r: "run sample_env sample_cfg sample_now [Inr ([entry_fresh] @ entry_undated # [entry_edge])]
       = run sample_env sample_cfg sample_now [Inr ([entry_fresh] @ [entry_edge])]"
    using wa by simp
  show ?thesis using u p q t r wa wb by blast
qed













end
